theory Spec2Isabelle
  imports Main "HOL-Library.AList" "HOL-Library.Sublist"
begin

section \<open>Data model (src/store/index.ts)\<close>

text \<open>
  Strings are lists of code units, one \<^typ>\<open>char\<close> per UTF-16 code unit of the
  TypeScript string. A \<^typ>\<open>char\<close> has 256 values, and the strings of the model are the
  strings over an alphabet of 256 code units: a \<^typ>\<open>char\<close> stands for the code unit of
  its own number, with two exceptions. \<open>String.prototype.toUpperCase\<close> takes U+00B5 to
  U+039C and U+00FF to U+0178, out of the code units below 256; the alphabet has the
  two images in the place of U+00B5 and U+00FF, so that it is closed under
  \<open>toUpperCase\<close> and every string that the compiler builds from strings over the
  alphabet is a string over the alphabet. None of the four code units is in a
  character class of the regular expressions of the compiler, which are exact on the
  alphabet.
\<close>

definition codeUnit :: "char \<Rightarrow> nat" where
  "codeUnit c =
     (if c = CHR 0xB5 then 0x39C else if c = CHR 0xFF then 0x178 else of_char c)"

text \<open>
  The \<open>data\<close> field of a node is a \<open>Record<string, any>\<close>; the compiler reads the
  three keys \<open>label\<close>, \<open>componentType\<close> and \<open>components\<close> only, the first two as
  strings and the third as an array of strings. A key that is absent (\<open>undefined\<close>) is
  \<open>None\<close>. The fields \<open>position\<close>, \<open>inputs\<close> and \<open>outputs\<close> of a node are never read
  by the compiler and are left out. The fields \<open>id\<close>, \<open>type\<close>, \<open>data\<close> and \<open>name\<close> carry
  the name of their interface as a prefix.
\<close>

record NodeData =
  label :: "string option"
  componentType :: "string option"
  components :: "string list option"

record VisualScriptNode =
  node_id :: string
  node_type :: string
  node_data :: NodeData

record VisualScriptConnection =
  conn_id :: string
  source :: string
  sourceHandle :: string
  target :: string
  targetHandle :: string

record VisualScript =
  script_id :: string
  script_name :: string
  nodes :: "VisualScriptNode list"
  connections :: "VisualScriptConnection list"

section \<open>The compiler (src/compiler/visual-script-compiler.ts)\<close>

record CompiledSystem =
  sys_name :: string
  code :: string
  dependencies :: "string list"

text \<open>
  The private fields of the class \<open>VisualScriptCompiler\<close>. A JavaScript \<open>Map\<close>
  iterates in insertion order and \<open>set\<close> on a present key keeps the key's place, so
  every \<open>Map\<close> of the source is an association list read with \<^const>\<open>map_of\<close> and
  written with \<^const>\<open>AList.update\<close>. The field \<open>output\<close> is named
  \<open>outputLines\<close> here.
\<close>

record compiler =
  indentLevel :: int
  outputLines :: "string list"
  nodeOutputs :: "(string \<times> string) list"

text \<open>
  Exceptions of the JavaScript runtime: \<open>TypeError\<close> (a property read or a call on
  \<open>undefined\<close>), \<open>RangeError\<close> (\<open>String.prototype.repeat\<close> with a negative count)
  and the exhaustion of the call stack by unbounded recursion.
\<close>

datatype error = TypeError | RangeError | StackOverflow

definition andThen :: "error + 'a \<Rightarrow> ('a \<Rightarrow> error + 'b) \<Rightarrow> error + 'b" where
  "andThen m f = (case m of Inl e \<Rightarrow> Inl e | Inr x \<Rightarrow> f x)"

subsection \<open>Identifier sanitization\<close>

text \<open>The character class \<open>[a-zA-Z0-9_]\<close>, by code unit.\<close>

definition isWordChar :: "char \<Rightarrow> bool" where
  "isWordChar c =
     (let n = (of_char c :: nat)
      in (97 \<le> n \<and> n \<le> 122) \<or> (65 \<le> n \<and> n \<le> 90) \<or> (48 \<le> n \<and> n \<le> 57) \<or> n = 95)"

text \<open>\<open>id.replace(/[^a-zA-Z0-9_]/g, '_')\<close>\<close>

definition sanitizeId :: "string \<Rightarrow> string" where
  "sanitizeId ident = map (\<lambda>c. if isWordChar c then c else CHR ''_'') ident"

subsection \<open>Code emitter\<close>

definition reset :: "compiler \<Rightarrow> compiler" where
  "reset st = st\<lparr>indentLevel := 0, outputLines := [], nodeOutputs := []\<rparr>"

text \<open>
  \<open>String.prototype.repeat\<close> at a count that is not negative; \<open>writeLine\<close> calls it as
  \<open>'    '.repeat(this.indentLevel)\<close>, which raises a \<open>RangeError\<close> when the count is
  negative.
\<close>

definition repeatStr :: "string \<Rightarrow> int \<Rightarrow> string" where
  "repeatStr s n = concat (replicate (nat n) s)"

definition writeLine :: "string \<Rightarrow> compiler \<Rightarrow> error + compiler" where
  "writeLine line st =
     (if indentLevel st < 0 then Inl RangeError
      else Inr (st\<lparr>outputLines :=
                  outputLines st @ [repeatStr ''    '' (indentLevel st) @ line]\<rparr>))"

definition indent :: "compiler \<Rightarrow> compiler" where
  "indent st = st\<lparr>indentLevel := indentLevel st + 1\<rparr>"

definition dedent :: "compiler \<Rightarrow> compiler" where
  "dedent st = st\<lparr>indentLevel := indentLevel st - 1\<rparr>"

text \<open>\<open>this.nodeOutputs.set(key, value)\<close>\<close>

definition setOutput :: "string \<Rightarrow> string \<Rightarrow> compiler \<Rightarrow> compiler" where
  "setOutput key v st = st\<lparr>nodeOutputs := AList.update key v (nodeOutputs st)\<rparr>"

text \<open>\<open>Array.prototype.join\<close>\<close>

fun join :: "string \<Rightarrow> string list \<Rightarrow> string" where
  "join sep [] = []"
| "join sep [x] = x"
| "join sep (x # y # ys) = x @ sep @ join sep (y # ys)"

text \<open>
  \<open>a || b\<close> on a value that is a string or \<open>undefined\<close>/\<open>null\<close>: the empty string is
  falsy as well. A template literal prints \<open>null\<close> as the text \<open>null\<close>.
\<close>

definition orElse :: "string option \<Rightarrow> string \<Rightarrow> string" where
  "orElse v d = (case v of None \<Rightarrow> d | Some s \<Rightarrow> if s = [] then d else s)"

definition showNull :: "string option \<Rightarrow> string" where
  "showNull v = (case v of None \<Rightarrow> ''null'' | Some s \<Rightarrow> s)"

subsection \<open>toRustName\<close>

text \<open>The class \<open>[\s-_]\<close>: white space, hyphen, underscore.\<close>

definition isSeparator :: "char \<Rightarrow> bool" where
  "isSeparator c = ((of_char c :: nat) \<in> {9, 10, 11, 12, 13, 32, 160, 45, 95})"

text \<open>
  \<open>String.prototype.toUpperCase\<close> on a string of one code unit: the small letters of
  ASCII (U+0061 to U+007A) and of Latin-1 (U+00E0 to U+00FE without the division sign
  U+00F7) go to the capital 32 below, the sharp s U+00DF goes to the two letters \<open>SS\<close>,
  and every other code unit of the alphabet stays as it is.
\<close>

definition toUpperCase :: "char \<Rightarrow> string" where
  "toUpperCase c =
     (let u = codeUnit c
      in if (0x61 \<le> u \<and> u \<le> 0x7A) \<or> (0xE0 \<le> u \<and> u \<le> 0xFE \<and> u \<noteq> 0xF7)
         then [char_of (u - 0x20)]
         else if u = 0xDF then ''SS'' else [c])"

text \<open>\<open>name.split(/[\s-_]+/)\<close>, with the word read so far as second argument.\<close>

function splitWords :: "string \<Rightarrow> string \<Rightarrow> string list" where
  "splitWords [] cur = [cur]"
| "splitWords (c # cs) cur =
     (if isSeparator c then cur # splitWords (dropWhile isSeparator cs) []
      else splitWords cs (cur @ [c]))"
  by pat_completeness auto
termination
  by (relation "measure (\<lambda>(s, cur). length s)")
     (auto simp: le_imp_less_Suc length_dropWhile_le)

text \<open>\<open>word.charAt(0).toUpperCase() + word.slice(1)\<close>\<close>

definition capitalize :: "string \<Rightarrow> string" where
  "capitalize word = (case word of [] \<Rightarrow> [] | c # cs \<Rightarrow> toUpperCase c @ cs)"

definition toRustName :: "string \<Rightarrow> string" where
  "toRustName name = concat (map capitalize (splitWords name []))"

subsection \<open>Connection index and input resolution\<close>

text \<open>The key is \<open>`${conn.source}_${conn.sourceHandle}`\<close>.\<close>

definition connectionKey :: "VisualScriptConnection \<Rightarrow> string" where
  "connectionKey conn = source conn @ ''_'' @ sourceHandle conn"

definition addConnection ::
  "(string \<times> VisualScriptConnection list) list \<Rightarrow> VisualScriptConnection
   \<Rightarrow> (string \<times> VisualScriptConnection list) list" where
  "addConnection m conn =
     (let key = connectionKey conn
      in AList.update key ((case map_of m key of None \<Rightarrow> [] | Some cs \<Rightarrow> cs) @ [conn]) m)"

definition buildConnectionMap ::
  "VisualScriptConnection list \<Rightarrow> (string \<times> VisualScriptConnection list) list" where
  "buildConnectionMap conns = foldl addConnection [] conns"

text \<open>
  The two nested loops of \<open>getInputValue\<close> return at the first connection, in the
  iteration order of the map, whose target and target handle match; the value is the
  symbol bound for \<open>conn.source\<close>, or \<open>null\<close> when none (or the empty string) is bound.
\<close>

definition getInputValue ::
  "compiler \<Rightarrow> string \<Rightarrow> string \<Rightarrow> (string \<times> VisualScriptConnection list) list
   \<Rightarrow> string option" where
  "getInputValue st nodeId inputName connectionMap =
     (case find (\<lambda>conn. target conn = nodeId \<and> targetHandle conn = inputName)
                (concat (map snd connectionMap)) of
        None \<Rightarrow> None
      | Some conn \<Rightarrow>
          (case map_of (nodeOutputs st) (source conn) of
             None \<Rightarrow> None
           | Some v \<Rightarrow> if v = [] then None else Some v))"

text \<open>\<open>new Map(nodes.map(n => [n.id, n]))\<close>\<close>

definition mkNodeMap :: "VisualScriptNode list \<Rightarrow> (string \<times> VisualScriptNode) list" where
  "mkNodeMap ns = foldl (\<lambda>m n. AList.update (node_id n) n m) [] ns"

subsection \<open>Topological sort (Kahn's algorithm)\<close>

text \<open>First loop: \<open>graph.set(node.id, [])\<close> and \<open>inDegree.set(node.id, 0)\<close>.\<close>

definition initGraph :: "VisualScriptNode list \<Rightarrow> (string \<times> string list) list" where
  "initGraph ns = foldl (\<lambda>g n. AList.update (node_id n) [] g) [] ns"

definition initInDegree :: "VisualScriptNode list \<Rightarrow> (string \<times> int) list" where
  "initInDegree ns = foldl (\<lambda>d n. AList.update (node_id n) 0 d) [] ns"

text \<open>
  Second loop. \<open>graph.get(conn.source)!.push(conn.target)\<close> is a call on \<open>undefined\<close>
  when the source is not a node id: a \<open>TypeError\<close>. A target that is not a node id
  gets an in-degree all the same, through \<open>(inDegree.get(conn.target) || 0) + 1\<close>.
\<close>

fun addEdges ::
  "VisualScriptConnection list \<Rightarrow> (string \<times> string list) list \<Rightarrow> (string \<times> int) list
   \<Rightarrow> error + ((string \<times> string list) list \<times> (string \<times> int) list)" where
  "addEdges [] graph inDegree = Inr (graph, inDegree)"
| "addEdges (conn # conns) graph inDegree =
     (case map_of graph (source conn) of
        None \<Rightarrow> Inl TypeError
      | Some targets \<Rightarrow>
          addEdges conns
            (AList.update (source conn) (targets @ [target conn]) graph)
            (AList.update (target conn)
               ((case map_of inDegree (target conn) of None \<Rightarrow> 0 | Some k \<Rightarrow> k) + 1)
               inDegree))"

text \<open>
  The loop over the neighbours of a dequeued node. Every neighbour was given an
  in-degree by the second loop; were one missing, \<open>undefined - 1\<close> would be \<open>NaN\<close>,
  which never equals 0 and stays \<open>NaN\<close>: the entry is left absent and nothing is
  enqueued.
\<close>

fun visitNeighbors ::
  "string list \<Rightarrow> (string \<times> int) list \<Rightarrow> string list \<Rightarrow> (string \<times> int) list \<times> string list" where
  "visitNeighbors [] inDegree queue = (inDegree, queue)"
| "visitNeighbors (neighbor # rest) inDegree queue =
     (case map_of inDegree neighbor of
        None \<Rightarrow> visitNeighbors rest inDegree queue
      | Some k \<Rightarrow>
          (let degree = k - 1
           in visitNeighbors rest (AList.update neighbor degree inDegree)
                (if degree = 0 then queue @ [neighbor] else queue)))"

definition positives :: "(string \<times> int) list \<Rightarrow> nat" where
  "positives inDegree = length (filter (\<lambda>p. 0 < snd p) inDegree)"

text \<open>
  The \<open>while (queue.length > 0)\<close> loop. \<open>sorted.push(nodeMap.get(nodeId)!)\<close> pushes
  \<open>undefined\<close> for an id that is not a node id, and the next statement iterates
  \<open>graph.get(nodeId)!\<close>, which is \<open>undefined\<close> for the same ids: a \<open>TypeError\<close>.
\<close>

function kahnLoop ::
  "(string \<times> string list) list \<Rightarrow> (string \<times> VisualScriptNode) list \<Rightarrow> (string \<times> int) list
   \<Rightarrow> string list \<Rightarrow> VisualScriptNode list \<Rightarrow> error + VisualScriptNode list" where
  "kahnLoop graph nodeMap inDegree [] sortedNodes = Inr sortedNodes"
| "kahnLoop graph nodeMap inDegree (nodeId # queue) sortedNodes =
     (case map_of nodeMap nodeId of
        None \<Rightarrow> Inl TypeError
      | Some node \<Rightarrow>
          (case map_of graph nodeId of
             None \<Rightarrow> Inl TypeError
           | Some neighbors \<Rightarrow>
               (case visitNeighbors neighbors inDegree queue of
                  (inDegree', queue') \<Rightarrow>
                    kahnLoop graph nodeMap inDegree' queue' (sortedNodes @ [node]))))"
  by pat_completeness auto

text \<open>
  Termination: a dequeue shortens the queue, and a neighbour is enqueued only when its
  in-degree goes from 1 to 0, which takes one entry out of the positive ones.
\<close>

lemma positives_update:
  "map_of d w = Some k \<Longrightarrow>
   positives (AList.update w k' d) + (if 0 < k then 1 else 0)
   = positives d + (if 0 < k' then 1 else 0)"
  by (induction d) (auto simp: positives_def)

lemma visitNeighbors_measure:
  "visitNeighbors ws d q = (d', q') \<Longrightarrow> positives d' + length q' = positives d + length q"
proof (induction ws arbitrary: d q)
  case Nil
  then show ?case by simp
next
  case (Cons w ws)
  show ?case
  proof (cases "map_of d w")
    case None
    with Cons show ?thesis by simp
  next
    case (Some k)
    with Cons.prems
    have "visitNeighbors ws (AList.update w (k - 1) d) (if k - 1 = 0 then q @ [w] else q)
          = (d', q')"
      by (simp add: Let_def)
    from Cons.IH[OF this] positives_update[OF Some, of "k - 1"]
    show ?thesis by (auto split: if_splits)
  qed
qed

termination kahnLoop
  by (relation "measure (\<lambda>(g, nm, d, q, s). positives d + length q)")
     (auto dest!: visitNeighbors_measure[OF sym])

text \<open>
  The queue is seeded from \<open>inDegree.entries()\<close>, in the insertion order of the map.
\<close>

definition topologicalSort ::
  "VisualScriptNode list \<Rightarrow> VisualScriptConnection list \<Rightarrow> error + VisualScriptNode list" where
  "topologicalSort ns conns =
     (case addEdges conns (initGraph ns) (initInDegree ns) of
        Inl e \<Rightarrow> Inl e
      | Inr (graph, inDegree) \<Rightarrow>
          kahnLoop graph (mkNodeMap ns) inDegree
            (map fst (filter (\<lambda>p. snd p = 0) inDegree)) [])"

subsection \<open>Dependency extraction\<close>

text \<open>\<open>Set.prototype.add\<close>, the set in insertion order.\<close>

definition setAdd :: "string \<Rightarrow> string list \<Rightarrow> string list" where
  "setAdd x xs = (if x \<in> set xs then xs else xs @ [x])"

definition addDependencies :: "string list \<Rightarrow> VisualScriptNode \<Rightarrow> string list" where
  "addDependencies deps node =
     (let deps1 = (case componentType (node_data node) of
                     None \<Rightarrow> deps
                   | Some t \<Rightarrow> if t = [] then deps else setAdd t deps)
      in if node_type node = ''physics/raycast'' then setAdd ''physics'' deps1
         else if node_type node = ''audio/play'' then setAdd ''audio'' deps1
         else deps1)"

definition extractDependencies :: "VisualScriptNode list \<Rightarrow> string list" where
  "extractDependencies ns = foldl addDependencies [] ns"

subsection \<open>Node compilers\<close>

definition compileUpdateEvent :: "VisualScriptNode \<Rightarrow> compiler \<Rightarrow> error + compiler" where
  "compileUpdateEvent node st = Inr (setOutput (node_id node) ''dt'' st)"

definition compileCollisionEvent :: "VisualScriptNode \<Rightarrow> compiler \<Rightarrow> error + compiler" where
  "compileCollisionEvent node st =
     andThen (writeLine ''for (entity_a, entity_b) in physics.get_collision_pairs() {'' st)
       (\<lambda>st. Inr (setOutput (node_id node @ ''_b'') ''entity_b''
                   (setOutput (node_id node @ ''_a'') ''entity_a'' (indent st))))"

definition compileGetEntities :: "VisualScriptNode \<Rightarrow> compiler \<Rightarrow> error + compiler" where
  "compileGetEntities node st =
     (let comps = (case components (node_data node) of None \<Rightarrow> [''Transform''] | Some cs \<Rightarrow> cs);
          queryVar = ''query_'' @ sanitizeId (node_id node);
          componentTypes = join '', '' (map (\<lambda>c. ''&'' @ c) comps)
      in andThen
           (writeLine (''let '' @ queryVar @ '' = world.query::<('' @ componentTypes @ '')>();'') st)
           (\<lambda>st. Inr (setOutput (node_id node) queryVar st)))"

definition compileGetComponent ::
  "VisualScriptNode \<Rightarrow> (string \<times> VisualScriptConnection list) list \<Rightarrow> compiler
   \<Rightarrow> error + compiler" where
  "compileGetComponent node connectionMap st =
     (let entityInput = getInputValue st (node_id node) ''entity'' connectionMap;
          componentType = orElse (componentType (node_data node)) ''Transform'';
          outputVar = ''comp_'' @ sanitizeId (node_id node)
      in andThen
           (writeLine (''let '' @ outputVar @ '' = world.get_component::<'' @ componentType
                       @ ''>('' @ showNull entityInput @ '')?;'') st)
           (\<lambda>st. Inr (setOutput (node_id node) outputVar st)))"

definition compileSetComponent ::
  "VisualScriptNode \<Rightarrow> (string \<times> VisualScriptConnection list) list \<Rightarrow> compiler
   \<Rightarrow> error + compiler" where
  "compileSetComponent node connectionMap st =
     (let entityInput = getInputValue st (node_id node) ''entity'' connectionMap;
          componentInput = getInputValue st (node_id node) ''component'' connectionMap
      in writeLine (''world.set_component('' @ showNull entityInput @ '', ''
                    @ showNull componentInput @ '');'') st)"

definition compileMathOperation ::
  "VisualScriptNode \<Rightarrow> (string \<times> VisualScriptConnection list) list \<Rightarrow> string \<Rightarrow> compiler
   \<Rightarrow> error + compiler" where
  "compileMathOperation node connectionMap operator st =
     (let leftInput = orElse (getInputValue st (node_id node) ''a'' connectionMap) ''0.0'';
          rightInput = orElse (getInputValue st (node_id node) ''b'' connectionMap) ''0.0'';
          outputVar = ''result_'' @ sanitizeId (node_id node)
      in andThen
           (writeLine (''let '' @ outputVar @ '' = '' @ leftInput @ '' '' @ operator @ '' ''
                       @ rightInput @ '';'') st)
           (\<lambda>st. Inr (setOutput (node_id node) outputVar st)))"

text \<open>\<open>connections.get(key) || []\<close>: an array, even an empty one, is truthy.\<close>

definition connectionsAt ::
  "(string \<times> VisualScriptConnection list) list \<Rightarrow> string \<Rightarrow> VisualScriptConnection list" where
  "connectionsAt connectionMap key = (case map_of connectionMap key of None \<Rightarrow> [] | Some cs \<Rightarrow> cs)"

text \<open>
  \<open>compileNode\<close>, \<open>compileIfStatement\<close> and \<open>compileForEach\<close> call each other through
  the \<open>then\<close>, \<open>else\<close> and \<open>body\<close> connections, without end when these connections
  lead back to the node. The first argument of \<open>compileNode\<close> is the number of nested
  \<open>compileNode\<close> calls that the call stack still admits; a call beyond it is the stack
  overflow of the runtime. The branch and loop compilers take \<open>this.compileNode\<close> at
  the remaining depth as their first argument \<open>self\<close>.

  \<open>compileTargets\<close> is their loop
  \<open>for (const conn of conns) { const targetNode = nodeMap.get(conn.target); if (targetNode) ... }\<close>.
\<close>

type_synonym nodeCompiler =
  "VisualScriptNode \<Rightarrow> (string \<times> VisualScriptConnection list) list
   \<Rightarrow> (string \<times> VisualScriptNode) list \<Rightarrow> compiler \<Rightarrow> error + compiler"

fun compileTargets ::
  "nodeCompiler \<Rightarrow> VisualScriptConnection list \<Rightarrow> (string \<times> VisualScriptConnection list) list
   \<Rightarrow> (string \<times> VisualScriptNode) list \<Rightarrow> compiler \<Rightarrow> error + compiler" where
  "compileTargets self [] connectionMap nodeMap st = Inr st"
| "compileTargets self (conn # conns) connectionMap nodeMap st =
     (case map_of nodeMap (target conn) of
        None \<Rightarrow> compileTargets self conns connectionMap nodeMap st
      | Some targetNode \<Rightarrow>
          andThen (self targetNode connectionMap nodeMap st)
            (\<lambda>st. compileTargets self conns connectionMap nodeMap st))"

definition compileIfStatement :: "nodeCompiler \<Rightarrow> nodeCompiler" where
  "compileIfStatement self node connectionMap nodeMap st =
     (let conditionInput = orElse (getInputValue st (node_id node) ''condition'' connectionMap) ''false''
      in andThen (writeLine (''if '' @ conditionInput @ '' {'') st)
           (\<lambda>st.
         andThen (compileTargets self (connectionsAt connectionMap (node_id node @ ''_then''))
                    connectionMap nodeMap (indent st))
           (\<lambda>st.
         andThen
           (if connectionsAt connectionMap (node_id node @ ''_else'') \<noteq> [] then
              andThen (writeLine ''} else {'' (dedent st))
                (\<lambda>st.
              andThen (compileTargets self (connectionsAt connectionMap (node_id node @ ''_else''))
                         connectionMap nodeMap (indent st))
                (\<lambda>st. Inr (dedent st)))
            else Inr (dedent st))
           (\<lambda>st. writeLine ''}'' st))))"

definition compileForEach :: "nodeCompiler \<Rightarrow> nodeCompiler" where
  "compileForEach self node connectionMap nodeMap st =
     (let arrayInput = getInputValue st (node_id node) ''array'' connectionMap;
          itemVar = ''item_'' @ sanitizeId (node_id node)
      in andThen (writeLine (''for '' @ itemVar @ '' in '' @ showNull arrayInput @ ''.iter() {'') st)
           (\<lambda>st.
         andThen (compileTargets self (connectionsAt connectionMap (node_id node @ ''_body''))
                    connectionMap nodeMap
                    (setOutput (node_id node @ ''_item'') itemVar (indent st)))
           (\<lambda>st. writeLine ''}'' (dedent st))))"

text \<open>The \<open>switch (node.type)\<close> of \<open>compileNode\<close>.\<close>

definition dispatch :: "nodeCompiler \<Rightarrow> nodeCompiler" where
  "dispatch self node connectionMap nodeMap st =
     (if node_type node = ''event/update'' then compileUpdateEvent node st
      else if node_type node = ''event/collision'' then compileCollisionEvent node st
      else if node_type node = ''query/get_entities'' then compileGetEntities node st
      else if node_type node = ''component/get'' then compileGetComponent node connectionMap st
      else if node_type node = ''component/set'' then compileSetComponent node connectionMap st
      else if node_type node = ''math/add'' then compileMathOperation node connectionMap ''+'' st
      else if node_type node = ''math/multiply'' then compileMathOperation node connectionMap ''*'' st
      else if node_type node = ''flow/if'' then compileIfStatement self node connectionMap nodeMap st
      else if node_type node = ''flow/foreach'' then compileForEach self node connectionMap nodeMap st
      else writeLine (''// TODO: Implement node type '' @ node_type node) st)"

primrec compileNode :: "nat \<Rightarrow> nodeCompiler" where
  "compileNode 0 = (\<lambda>node connectionMap nodeMap st. Inl StackOverflow)"
| "compileNode (Suc depth) =
     (\<lambda>node connectionMap nodeMap st.
        andThen (writeLine (''// Node: '' @ orElse (label (node_data node)) (node_type node)) st)
          (\<lambda>st.
        andThen (dispatch (compileNode depth) node connectionMap nodeMap st)
          (\<lambda>st. writeLine [] st)))"

text \<open>The loop \<open>for (const node of sortedNodes) this.compileNode(node, ...)\<close>.\<close>

fun compileNodes ::
  "nat \<Rightarrow> VisualScriptNode list \<Rightarrow> (string \<times> VisualScriptConnection list) list
   \<Rightarrow> (string \<times> VisualScriptNode) list \<Rightarrow> compiler \<Rightarrow> error + compiler" where
  "compileNodes depth [] connectionMap nodeMap st = Inr st"
| "compileNodes depth (node # rest) connectionMap nodeMap st =
     andThen (compileNode depth node connectionMap nodeMap st)
       (\<lambda>st. compileNodes depth rest connectionMap nodeMap st)"

text \<open>
  \<open>compile\<close>; the second component of the result is the state in which the call
  leaves the compiler instance.
\<close>

definition compile :: "nat \<Rightarrow> VisualScript \<Rightarrow> compiler \<Rightarrow> error + (CompiledSystem \<times> compiler)" where
  "compile depth script st0 =
     (let st = reset st0;
          nodeMap = mkNodeMap (nodes script);
          connectionMap = buildConnectionMap (connections script)
      in andThen (topologicalSort (nodes script) (connections script))
           (\<lambda>sortedNodes.
         andThen (writeLine (''pub struct '' @ toRustName (script_name script) @ ''System {'') st)
           (\<lambda>st.
         andThen (writeLine ''// System state'' (indent st))
           (\<lambda>st.
         andThen (writeLine ''}'' (dedent st))
           (\<lambda>st.
         andThen (writeLine [] st)
           (\<lambda>st.
         andThen (writeLine (''impl System for '' @ toRustName (script_name script) @ ''System {'') st)
           (\<lambda>st.
         andThen (writeLine ''fn execute(&mut self, world: &mut World, physics: &mut PhysicsWorld, dt: f32) {''
                    (indent st))
           (\<lambda>st.
         andThen (compileNodes depth sortedNodes connectionMap nodeMap (indent st))
           (\<lambda>st.
         andThen (writeLine ''}'' (dedent st))
           (\<lambda>st.
         andThen (writeLine ''}'' (dedent st))
           (\<lambda>st.
         Inr (\<lparr>sys_name = script_name script,
                code = join [CHR 0x0A] (outputLines st),
                dependencies = extractDependencies (nodes script)\<rparr>, st))))))))))))"

section \<open>Well-formed scripts, the invariant of the sort and the nesting of blocks\<close>

text \<open>
  A script is well formed when its node ids are distinct and both ends of every
  connection are ids of its nodes (the invariants of the data model). The dependency
  relation has an edge from the source to the target of every connection.
\<close>

definition wellFormed :: "VisualScript \<Rightarrow> bool" where
  "wellFormed script \<longleftrightarrow>
     distinct (map node_id (nodes script)) \<and>
     (\<forall>c\<in>set (connections script).
        source c \<in> node_id ` set (nodes script) \<and> target c \<in> node_id ` set (nodes script))"

definition edges :: "VisualScriptConnection list \<Rightarrow> (string \<times> string) set" where
  "edges conns = (\<lambda>c. (source c, target c)) ` set conns"

text \<open>
  The number of connections into \<open>v\<close> whose source is not yet in the set \<open>P\<close> of
  sorted node ids: the in-degree that Kahn's algorithm keeps for \<open>v\<close>.
\<close>

definition remaining :: "VisualScriptConnection list \<Rightarrow> string set \<Rightarrow> string \<Rightarrow> int" where
  "remaining conns P v = int (length (filter (\<lambda>c. target c = v \<and> source c \<notin> P) conns))"

text \<open>Every connection into an element of the list comes from an earlier element.\<close>

definition topoOrdered :: "VisualScriptConnection list \<Rightarrow> string list \<Rightarrow> bool" where
  "topoOrdered conns l \<longleftrightarrow>
     (\<forall>i<length l. \<forall>c\<in>set conns. target c = l ! i \<longrightarrow> source c \<in> set (take i l))"

text \<open>The adjacency lists and the node map that \<open>topologicalSort\<close> builds.\<close>

definition graphFor ::
  "VisualScriptNode list \<Rightarrow> VisualScriptConnection list \<Rightarrow> (string \<times> string list) list
   \<Rightarrow> (string \<times> VisualScriptNode) list \<Rightarrow> bool" where
  "graphFor ns conns g nm \<longleftrightarrow>
     distinct (map node_id ns) \<and>
     (\<forall>c\<in>set conns. source c \<in> node_id ` set ns \<and> target c \<in> node_id ` set ns) \<and>
     (\<forall>v\<in>node_id ` set ns. map_of g v = Some (map target (filter (\<lambda>c. source c = v) conns))) \<and>
     (\<forall>n\<in>set ns. map_of nm (node_id n) = Some n)"

text \<open>The invariant of the \<open>while\<close> loop of \<open>topologicalSort\<close>.\<close>

definition kahnInv ::
  "VisualScriptNode list \<Rightarrow> VisualScriptConnection list \<Rightarrow> (string \<times> int) list
   \<Rightarrow> string list \<Rightarrow> VisualScriptNode list \<Rightarrow> bool" where
  "kahnInv ns conns deg queue srt \<longleftrightarrow>
     set srt \<subseteq> set ns \<and> set queue \<subseteq> node_id ` set ns \<and>
     distinct (map node_id srt @ queue) \<and>
     (\<forall>v\<in>node_id ` set ns. map_of deg v = Some (remaining conns (node_id ` set srt) v)) \<and>
     (\<forall>v\<in>node_id ` set ns.
        remaining conns (node_id ` set srt) v = 0 \<longleftrightarrow> v \<in> node_id ` set srt \<union> set queue) \<and>
     topoOrdered conns (map node_id srt)"

text \<open>A node compiler that only appends to the output of the state it is given.\<close>

definition appending :: "nodeCompiler \<Rightarrow> bool" where
  "appending self \<longleftrightarrow>
     (\<forall>node cm nm st st'. self node cm nm st = Inr st' \<longrightarrow> prefix (outputLines st) (outputLines st'))"

text \<open>
  The nodes that the compiler of a branch or loop node compiles inside its block: the
  targets, found in the node map, of the connections keyed by its \<open>then\<close> and \<open>else\<close>
  handles, or by its \<open>body\<close> handle.
\<close>

definition blockTargets ::
  "(string \<times> VisualScriptConnection list) list \<Rightarrow> (string \<times> VisualScriptNode) list
   \<Rightarrow> VisualScriptNode \<Rightarrow> VisualScriptNode list" where
  "blockTargets cm nm node =
     List.map_filter (\<lambda>c. map_of nm (target c))
       (if node_type node = ''flow/if''
        then connectionsAt cm (node_id node @ ''_then'') @ connectionsAt cm (node_id node @ ''_else'')
        else if node_type node = ''flow/foreach'' then connectionsAt cm (node_id node @ ''_body'')
        else [])"

text \<open>The nesting relation of a script: \<open>(t, n)\<close> when \<open>n\<close> compiles \<open>t\<close> inside its block.\<close>

definition nesting :: "VisualScript \<Rightarrow> (VisualScriptNode \<times> VisualScriptNode) set" where
  "nesting script =
     {(t, n). n \<in> set (nodes script) \<and>
              t \<in> set (blockTargets (buildConnectionMap (connections script))
                          (mkNodeMap (nodes script)) n)}"

text \<open>
  A node compiler returns at a node when, from every state whose indent level is not
  negative, it returns a state whose indent level is not lower.
\<close>

definition returnsAt :: "nodeCompiler \<Rightarrow> (string \<times> VisualScriptConnection list) list
   \<Rightarrow> (string \<times> VisualScriptNode) list \<Rightarrow> VisualScriptNode \<Rightarrow> bool" where
  "returnsAt self cm nm t \<longleftrightarrow>
     (\<forall>st. 0 \<le> indentLevel st \<longrightarrow>
        (\<exists>st'. self t cm nm st = Inr st' \<and> indentLevel st \<le> indentLevel st'))"


text \<open>
  The nodes \<open>ns\<close> are compiled one after the other, from the state \<open>st\<close> on: the \<open>i\<close>-th
  step is the lines that the compiler appends for the \<open>i\<close>-th node and the state in which
  it returns, which is the state from which the next node is compiled.
\<close>

fun compiledInTurn ::
  "nodeCompiler \<Rightarrow> VisualScriptNode list \<Rightarrow> (string \<times> VisualScriptConnection list) list
   \<Rightarrow> (string \<times> VisualScriptNode) list \<Rightarrow> compiler \<Rightarrow> (string list \<times> compiler) list
   \<Rightarrow> bool" where
  "compiledInTurn self [] cm nm st steps \<longleftrightarrow> steps = []"
| "compiledInTurn self (n # ns) cm nm st steps \<longleftrightarrow>
     (case steps of
        [] \<Rightarrow> False
      | (ls, s) # rest \<Rightarrow>
          self n cm nm st = Inr s \<and> outputLines s = outputLines st @ ls \<and>
          compiledInTurn self ns cm nm s rest)"

section \<open>Example scripts\<close>

text \<open>A compiler instance as the field initialisers of the class leave it.\<close>

definition newCompiler :: compiler where
  "newCompiler = \<lparr>indentLevel = 0, outputLines = [], nodeOutputs = []\<rparr>"

definition plainNode :: "string \<Rightarrow> string \<Rightarrow> VisualScriptNode" where
  "plainNode ident ty =
     \<lparr>node_id = ident, node_type = ty,
      node_data = \<lparr>label = None, componentType = None, components = None\<rparr>\<rparr>"

definition connection :: "string \<Rightarrow> string \<Rightarrow> string \<Rightarrow> string \<Rightarrow> string \<Rightarrow> VisualScriptConnection" where
  "connection ident src srcHandle tgt tgtHandle =
     \<lparr>conn_id = ident, source = src, sourceHandle = srcHandle,
      target = tgt, targetHandle = tgtHandle\<rparr>"

text \<open>Two \<open>math/add\<close> nodes whose ids differ in one character outside the class.\<close>

definition shadowScript :: VisualScript where
  "shadowScript =
     \<lparr>script_id = ''s1'', script_name = ''shadow'',
      nodes = [plainNode ''a.b'' ''math/add'', plainNode ''a_b'' ''math/add''],
      connections = []\<rparr>"

text \<open>Two nodes, each taking the other's output.\<close>

definition cycleScript :: VisualScript where
  "cycleScript =
     \<lparr>script_id = ''s3'', script_name = ''cycle'',
      nodes = [plainNode ''A'' ''math/add'', plainNode ''B'' ''math/add''],
      connections = [connection ''c1'' ''A'' ''result'' ''B'' ''a'',
                     connection ''c2'' ''B'' ''result'' ''A'' ''a'']\<rparr>"

text \<open>
  Two nodes that each take the other's output, one of them also the \<open>then\<close> target of a
  \<open>flow/if\<close> node.
\<close>

definition cycleInBlockScript :: VisualScript where
  "cycleInBlockScript =
     \<lparr>script_id = ''s9'', script_name = ''cycle in block'',
      nodes = [plainNode ''I'' ''flow/if'', plainNode ''A'' ''math/add'', plainNode ''B'' ''math/add''],
      connections = [connection ''c1'' ''I'' ''then'' ''A'' ''exec'',
                     connection ''c2'' ''A'' ''result'' ''B'' ''a'',
                     connection ''c3'' ''B'' ''result'' ''A'' ''a'']\<rparr>"

text \<open>A \<open>flow/if\<close> node whose \<open>then\<close> handle leads to a \<open>math/add\<close> node.\<close>

definition nestedScript :: VisualScript where
  "nestedScript =
     \<lparr>script_id = ''s4'', script_name = ''nested'',
      nodes = [plainNode ''I'' ''flow/if'', plainNode ''T'' ''math/add''],
      connections = [connection ''c1'' ''I'' ''then'' ''T'' ''exec'']\<rparr>"

text \<open>A node on a self-loop with a second connection to an id that is no node.\<close>

definition danglingTargetScript :: VisualScript where
  "danglingTargetScript =
     \<lparr>script_id = ''s5'', script_name = ''dangling'',
      nodes = [plainNode ''S'' ''math/add''],
      connections = [connection ''c1'' ''S'' ''result'' ''S'' ''a'',
                     connection ''c2'' ''S'' ''result'' ''X'' ''a'']\<rparr>"

text \<open>A connection whose source is no node.\<close>

definition danglingSourceScript :: VisualScript where
  "danglingSourceScript =
     \<lparr>script_id = ''s6'', script_name = ''dangling'',
      nodes = [plainNode ''A'' ''math/add''],
      connections = [connection ''c1'' ''X'' ''result'' ''A'' ''a'']\<rparr>"

text \<open>A single \<open>event/collision\<close> node.\<close>

definition collisionScript :: VisualScript where
  "collisionScript =
     \<lparr>script_id = ''s7'', script_name = ''collision'',
      nodes = [plainNode ''E'' ''event/collision''],
      connections = []\<rparr>"

text \<open>
  A \<open>flow/if\<close> node \<open>a_b\<close> with no connection of its own, and a connection from the
  \<open>math/add\<close> node \<open>a\<close>, at its handle \<open>b_then\<close>, to the node \<open>B\<close>, which also takes the
  output of the node \<open>A\<close>.
\<close>

definition collideScript :: VisualScript where
  "collideScript =
     \<lparr>script_id = ''s10'', script_name = ''collide'',
      nodes = [plainNode ''a_b'' ''flow/if'', plainNode ''a'' ''math/add'',
               plainNode ''A'' ''math/add'', plainNode ''B'' ''math/add''],
      connections = [connection ''c1'' ''a'' ''b_then'' ''B'' ''a'',
                     connection ''c2'' ''A'' ''result'' ''B'' ''b'']\<rparr>"


section \<open>Kahn's algorithm and the emitted lines\<close>

lemma visitNeighbors_degrees:
  "visitNeighbors ws d q = (d', q') \<Longrightarrow>
   map_of d' w = map_option (\<lambda>k. k - int (count_list ws w)) (map_of d w)"
proof (induction ws arbitrary: d q)
  case Nil
  then show ?case by (simp add: option.map_ident)
next
  case (Cons u ws)
  show ?case
  proof (cases "map_of d u")
    case None
    with Cons.prems have "visitNeighbors ws d q = (d', q')" by simp
    from Cons.IH[OF this] None show ?thesis by (cases "u = w") auto
  next
    case (Some k)
    with Cons.prems
    have "visitNeighbors ws (AList.update u (k - 1) d) (if k - 1 = 0 then q @ [u] else q)
          = (d', q')"
      by (simp add: Let_def)
    from Cons.IH[OF this] Some show ?thesis
      by (cases "u = w") (auto simp: update_conv' map_option_case split: option.splits)
  qed
qed

lemma visitNeighbors_queue:
  "visitNeighbors ws d q = (d', q') \<Longrightarrow>
   \<exists>new. q' = q @ new \<and> distinct new \<and>
     set new = {w \<in> set ws. \<exists>k. map_of d w = Some k \<and> 1 \<le> k \<and> k \<le> int (count_list ws w)}"
proof (induction ws arbitrary: d q)
  case Nil
  then show ?case by simp
next
  case (Cons u ws)
  show ?case
  proof (cases "map_of d u")
    case None
    with Cons.prems have "visitNeighbors ws d q = (d', q')" by simp
    from Cons.IH[OF this] obtain new where
      new: "q' = q @ new" "distinct new"
        "set new = {w \<in> set ws. \<exists>k. map_of d w = Some k \<and> 1 \<le> k \<and> k \<le> int (count_list ws w)}"
      by blast
    have "set new = {w \<in> set (u # ws). \<exists>k. map_of d w = Some k \<and> 1 \<le> k \<and> k \<le> int (count_list (u # ws) w)}"
      using new(3) None by auto
    with new show ?thesis by blast
  next
    case (Some k)
    let ?d1 = "AList.update u (k - 1) d"
    let ?q1 = "if k - 1 = 0 then q @ [u] else q"
    from Some Cons.prems have run: "visitNeighbors ws ?d1 ?q1 = (d', q')"
      by (simp add: Let_def)
    from Cons.IH[OF run] obtain new where
      new: "q' = ?q1 @ new" "distinct new"
        "set new = {w \<in> set ws. \<exists>k'. map_of ?d1 w = Some k' \<and> 1 \<le> k' \<and> k' \<le> int (count_list ws w)}"
      by blast
    have other: "\<And>w. w \<noteq> u \<Longrightarrow> map_of ?d1 w = map_of d w"
      by (simp add: update_conv')
    have self: "map_of ?d1 u = Some (k - 1)"
      by (simp add: update_conv')
    let ?target = "{w \<in> set (u # ws). \<exists>k. map_of d w = Some k \<and> 1 \<le> k \<and> k \<le> int (count_list (u # ws) w)}"
    show ?thesis
    proof (cases "k = 1")
      case True
      have "u \<notin> set new" using new(3) self True by auto
      moreover have "set (u # new) = ?target"
      proof (rule set_eqI)
        fix w show "w \<in> set (u # new) \<longleftrightarrow> w \<in> ?target"
        proof (cases "w = u")
          case True
          with Some \<open>k = 1\<close> show ?thesis by auto
        next
          case False
          with new(3) other[OF False] show ?thesis by auto
        qed
      qed
      moreover have "q' = q @ (u # new)" using new(1) True by simp
      ultimately show ?thesis using new(2) by (intro exI[of _ "u # new"]) simp
    next
      case False
      have "set new = ?target"
      proof (rule set_eqI)
        fix w show "w \<in> set new \<longleftrightarrow> w \<in> ?target"
        proof (cases "w = u")
          case True
          have "u \<in> set new \<longleftrightarrow> u \<in> set ws \<and> 2 \<le> k \<and> k - 1 \<le> int (count_list ws u)"
            using new(3) self by auto
          moreover have "u \<in> ?target \<longleftrightarrow> 1 \<le> k \<and> k \<le> int (count_list ws u) + 1"
            using Some by auto
          moreover have "k - 1 \<le> int (count_list ws u) \<Longrightarrow> 2 \<le> k \<Longrightarrow> u \<in> set ws"
            using count_list_0_iff[of ws u] by (cases "u \<in> set ws") auto
          ultimately show ?thesis using True False by auto
        next
          case False
          with new(3) other[OF False] show ?thesis by auto
        qed
      qed
      moreover have "q' = q @ new" using new(1) False by simp
      ultimately show ?thesis using new(2) by blast
    qed
  qed
qed

lemma topoOrdered_snoc:
  assumes "topoOrdered conns l" and "\<forall>c\<in>set conns. target c = v \<longrightarrow> source c \<in> set l"
  shows "topoOrdered conns (l @ [v])"
  unfolding topoOrdered_def
proof (intro allI impI ballI)
  fix i c
  assume i: "i < length (l @ [v])" and c: "c \<in> set conns" and t: "target c = (l @ [v]) ! i"
  show "source c \<in> set (take i (l @ [v]))"
  proof (cases "i < length l")
    case True
    with assms(1) c t show ?thesis by (auto simp: topoOrdered_def nth_append)
  next
    case False
    with i have "i = length l" by simp
    with assms(2) c t show ?thesis by simp
  qed
qed

lemma count_list_map_filter:
  "count_list (map f xs) y = length (filter (\<lambda>x. f x = y) xs)"
  by (induction xs) auto

lemma remaining_insert:
  assumes "v \<notin> P"
  shows "remaining conns (insert v P) w
         = remaining conns P w
           - int (count_list (map target (filter (\<lambda>c. source c = v) conns)) w)"
proof -
  have "length (filter (\<lambda>c. target c = w \<and> source c \<notin> P) conns)
        = length (filter (\<lambda>c. target c = w \<and> source c \<notin> insert v P) conns)
          + length (filter (\<lambda>c. target c = w) (filter (\<lambda>c. source c = v) conns))"
    using assms by (induction conns) auto
  then show ?thesis
    by (simp add: remaining_def count_list_map_filter)
qed

lemma remaining_nonneg: "0 \<le> remaining conns P w"
  by (simp add: remaining_def)

lemma remaining_zero_iff:
  "remaining conns P w = 0 \<longleftrightarrow> (\<forall>c\<in>set conns. target c = w \<longrightarrow> source c \<in> P)"
  by (auto simp: remaining_def filter_empty_conv)

lemma kahn_step:
  assumes gf: "graphFor ns conns g nm"
      and inv: "kahnInv ns conns deg (v # q) srt"
      and nm: "map_of nm v = Some n"
      and g: "map_of g v = Some nbrs"
      and vis: "visitNeighbors nbrs deg q = (deg', q')"
  shows "kahnInv ns conns deg' q' (srt @ [n])"
proof -
  let ?ids = "node_id ` set ns"
  let ?P = "node_id ` set srt"
  from inv have srt: "set srt \<subseteq> set ns" and qsub: "set (v # q) \<subseteq> ?ids"
    and dist: "distinct (map node_id srt @ v # q)"
    and deg: "\<forall>w\<in>?ids. map_of deg w = Some (remaining conns ?P w)"
    and zero: "\<forall>w\<in>?ids. remaining conns ?P w = 0 \<longleftrightarrow> w \<in> ?P \<union> set (v # q)"
    and topo: "topoOrdered conns (map node_id srt)"
    by (simp_all add: kahnInv_def)
  from qsub have vid: "v \<in> ?ids" by simp
  then obtain n0 where n0: "n0 \<in> set ns" "node_id n0 = v" by auto
  with gf nm have n: "n \<in> set ns" "node_id n = v" by (auto simp: graphFor_def)
  from gf g vid have nbrs: "nbrs = map target (filter (\<lambda>c. source c = v) conns)"
    by (auto simp: graphFor_def)
  from dist have vP: "v \<notin> ?P" and vq: "v \<notin> set q" by auto
  have P': "node_id ` set (srt @ [n]) = insert v ?P" using n by auto
  have rem': "\<And>w. remaining conns (insert v ?P) w = remaining conns ?P w - int (count_list nbrs w)"
    unfolding nbrs by (rule remaining_insert[OF vP])
  have nbrs_ids: "set nbrs \<subseteq> ?ids" using gf by (auto simp: nbrs graphFor_def)
  from visitNeighbors_queue[OF vis] obtain new where
    new: "q' = q @ new" "distinct new"
      "set new = {w \<in> set nbrs. \<exists>k. map_of deg w = Some k \<and> 1 \<le> k \<and> k \<le> int (count_list nbrs w)}"
    by blast
  have new_char: "\<And>w. w \<in> set new \<longleftrightarrow>
      w \<in> set nbrs \<and> 1 \<le> remaining conns ?P w \<and> remaining conns (insert v ?P) w = 0"
  proof -
    fix w
    show "w \<in> set new \<longleftrightarrow>
      w \<in> set nbrs \<and> 1 \<le> remaining conns ?P w \<and> remaining conns (insert v ?P) w = 0"
    proof (cases "w \<in> set nbrs")
      case False with new(3) show ?thesis by simp
    next
      case True
      with nbrs_ids deg have "map_of deg w = Some (remaining conns ?P w)" by auto
      with True new(3) have "w \<in> set new \<longleftrightarrow>
          1 \<le> remaining conns ?P w \<and> remaining conns ?P w \<le> int (count_list nbrs w)" by simp
      with True rem'[of w] remaining_nonneg[of conns "insert v ?P" w] show ?thesis by auto
    qed
  qed
  have new_ids: "set new \<subseteq> ?ids" using new(3) nbrs_ids by auto
  have new_fresh: "\<And>w. w \<in> set new \<Longrightarrow> w \<notin> ?P \<union> set (v # q)"
  proof -
    fix w assume w: "w \<in> set new"
    with new_char have "1 \<le> remaining conns ?P w" by simp
    moreover from w new_ids have "w \<in> ?ids" by auto
    ultimately show "w \<notin> ?P \<union> set (v # q)" using bspec[OF zero, of w] by linarith
  qed
  have c1: "set (srt @ [n]) \<subseteq> set ns" using srt n by simp
  have c2: "set q' \<subseteq> ?ids" using qsub new_ids new(1) by auto
  have c3: "distinct (map node_id (srt @ [n]) @ q')"
    using dist new(1,2) new_fresh n by auto
  have c4: "\<forall>w\<in>?ids. map_of deg' w = Some (remaining conns (node_id ` set (srt @ [n])) w)"
  proof
    fix w assume "w \<in> ?ids"
    with deg have "map_of deg w = Some (remaining conns ?P w)" by blast
    with visitNeighbors_degrees[OF vis, of w] rem'[of w] P'
    show "map_of deg' w = Some (remaining conns (node_id ` set (srt @ [n])) w)" by simp
  qed
  have c5: "\<forall>w\<in>?ids. remaining conns (node_id ` set (srt @ [n])) w = 0
              \<longleftrightarrow> w \<in> node_id ` set (srt @ [n]) \<union> set q'"
  proof
    fix w assume w: "w \<in> ?ids"
    show "remaining conns (node_id ` set (srt @ [n])) w = 0
              \<longleftrightarrow> w \<in> node_id ` set (srt @ [n]) \<union> set q'"
    proof (cases "remaining conns ?P w = 0")
      case True
      with bspec[OF zero w] have "w \<in> ?P \<union> set (v # q)" by blast
      moreover from True rem'[of w] remaining_nonneg[of conns "insert v ?P" w]
      have "remaining conns (insert v ?P) w = 0" by simp
      ultimately show ?thesis unfolding P' new(1) by auto
    next
      case False
      with bspec[OF zero w] have notin: "w \<notin> ?P \<union> set (v # q)" by blast
      from False remaining_nonneg[of conns ?P w] have pos: "1 \<le> remaining conns ?P w" by simp
      have "remaining conns (insert v ?P) w = 0 \<longleftrightarrow> w \<in> set new"
      proof
        assume z: "remaining conns (insert v ?P) w = 0"
        with rem'[of w] pos have "count_list nbrs w \<noteq> 0" by auto
        then have "w \<in> set nbrs" using count_list_0_iff[of nbrs w] by auto
        with z pos new_char show "w \<in> set new" by simp
      next
        assume "w \<in> set new" with new_char show "remaining conns (insert v ?P) w = 0" by simp
      qed
      with notin show ?thesis unfolding P' new(1) by auto
    qed
  qed
  have c6: "topoOrdered conns (map node_id (srt @ [n]))"
  proof -
    from bspec[OF zero vid] have "remaining conns ?P v = 0" by simp
    then have "\<forall>c\<in>set conns. target c = v \<longrightarrow> source c \<in> set (map node_id srt)"
      by (simp add: remaining_zero_iff)
    from topoOrdered_snoc[OF topo this] n show ?thesis by simp
  qed
  from c1 c2 c3 c4 c5 c6 show ?thesis unfolding kahnInv_def by blast
qed

lemma kahnLoop_correct:
  assumes gf: "graphFor ns conns g nm"
  shows "kahnInv ns conns deg queue srt \<Longrightarrow>
         \<exists>res degF. kahnLoop g nm deg queue srt = Inr res \<and> kahnInv ns conns degF [] res"
  using gf
proof (induction g nm deg queue srt rule: kahnLoop.induct)
  case (1 graph nodeMap inDegree sortedNodes)
  then show ?case by auto
next
  case (2 graph nodeMap inDegree nodeId queue sortedNodes)
  from "2.prems"(1) have "nodeId \<in> node_id ` set ns" by (simp add: kahnInv_def)
  then obtain n where n: "n \<in> set ns" "node_id n = nodeId" by auto
  with "2.prems"(2) have nm: "map_of nodeMap nodeId = Some n"
    by (auto simp: graphFor_def)
  from n "2.prems"(2) obtain nbrs where g: "map_of graph nodeId = Some nbrs"
    by (auto simp: graphFor_def)
  obtain deg' q' where vis: "visitNeighbors nbrs inDegree queue = (deg', q')"
    by (cases "visitNeighbors nbrs inDegree queue") auto
  have "kahnInv ns conns deg' q' (sortedNodes @ [n])"
    by (rule kahn_step[OF "2.prems"(2) "2.prems"(1) nm g vis])
  from "2.IH"[OF nm g vis[symmetric] this "2.prems"(2)] nm g vis
  show ?case by simp
qed

lemma map_of_foldl_update_const:
  "map_of (foldl (\<lambda>m n. AList.update (k n) c m) m0 ns) v
   = (if v \<in> k ` set ns then Some c else map_of m0 v)"
  by (induction ns arbitrary: m0) (auto simp: update_conv')

lemma distinct_foldl_update:
  "distinct (map fst m0) \<Longrightarrow> distinct (map fst (foldl (\<lambda>m n. AList.update (k n) (f n) m) m0 ns))"
  by (induction ns arbitrary: m0) (auto simp: distinct_update)

lemma keys_foldl_update:
  "fst ` set (foldl (\<lambda>m n. AList.update (k n) (f n) m) m0 ns) = fst ` set m0 \<union> k ` set ns"
  by (induction ns arbitrary: m0) (auto simp: dom_update)

lemma map_of_mkNodeMap:
  "distinct (map node_id ns) \<Longrightarrow> n \<in> set ns \<Longrightarrow> map_of (mkNodeMap ns) (node_id n) = Some n"
proof (induction ns rule: rev_induct)
  case Nil
  then show ?case by simp
next
  case (snoc x xs)
  show ?case
  proof (cases "n = x")
    case True
    then show ?thesis by (simp add: mkNodeMap_def update_conv')
  next
    case False
    with snoc.prems have n: "n \<in> set xs" and d: "distinct (map node_id xs)"
      and nx: "node_id x \<notin> node_id ` set xs"
      by auto
    from n nx have ne: "node_id n \<noteq> node_id x"
      by (metis imageI)
    from snoc.IH[OF d n] ne show ?thesis
      by (simp add: mkNodeMap_def update_conv')
  qed
qed

lemma addEdges_ok:
  assumes "\<forall>c\<in>set conns. source c \<in> dom (map_of g) \<and> target c \<in> dom (map_of d)"
  shows "\<exists>g' d'. addEdges conns g d = Inr (g', d') \<and>
     (\<forall>v. map_of g' v
          = map_option (\<lambda>ts. ts @ map target (filter (\<lambda>c. source c = v) conns)) (map_of g v)) \<and>
     (\<forall>v. map_of d' v
          = map_option (\<lambda>k. k + int (length (filter (\<lambda>c. target c = v) conns))) (map_of d v)) \<and>
     map fst d' = map fst d"
  using assms
proof (induction conns arbitrary: g d)
  case Nil
  then show ?case by (simp add: option.map_ident)
next
  case (Cons conn conns)
  from Cons.prems obtain ts k where ts: "map_of g (source conn) = Some ts"
    and k: "map_of d (target conn) = Some k" by auto
  let ?g1 = "AList.update (source conn) (ts @ [target conn]) g"
  let ?d1 = "AList.update (target conn) (k + 1) d"
  have pre: "\<forall>c\<in>set conns. source c \<in> dom (map_of ?g1) \<and> target c \<in> dom (map_of ?d1)"
    using Cons.prems by (auto simp: update_conv')
  from Cons.IH[OF pre] obtain g' d' where
    run: "addEdges conns ?g1 ?d1 = Inr (g', d')"
    and g': "\<forall>v. map_of g' v
          = map_option (\<lambda>ts. ts @ map target (filter (\<lambda>c. source c = v) conns)) (map_of ?g1 v)"
    and d': "\<forall>v. map_of d' v
          = map_option (\<lambda>k. k + int (length (filter (\<lambda>c. target c = v) conns))) (map_of ?d1 v)"
    and keys: "map fst d' = map fst ?d1"
    by blast
  have "addEdges (conn # conns) g d = Inr (g', d')"
    using run ts k by simp
  moreover have "\<forall>v. map_of g' v
          = map_option (\<lambda>ts. ts @ map target (filter (\<lambda>c. source c = v) (conn # conns))) (map_of g v)"
    using g' ts by (auto simp: update_conv')
  moreover have "\<forall>v. map_of d' v
          = map_option (\<lambda>k. k + int (length (filter (\<lambda>c. target c = v) (conn # conns)))) (map_of d v)"
    using d' k by (auto simp: update_conv')
  moreover have "map fst d' = map fst d"
    using keys k by (auto simp: update_keys dest: map_of_SomeD intro: rev_image_eqI)
  ultimately show ?case by blast
qed

lemma topologicalSort_inv:
  assumes dist: "distinct (map node_id ns)"
      and wf: "\<forall>c\<in>set conns. source c \<in> node_id ` set ns \<and> target c \<in> node_id ` set ns"
  shows "\<exists>res degF. topologicalSort ns conns = Inr res \<and> kahnInv ns conns degF [] res"
proof -
  let ?ids = "node_id ` set ns"
  have g0: "\<And>v. map_of (initGraph ns) v = (if v \<in> ?ids then Some [] else None)"
    by (simp add: initGraph_def map_of_foldl_update_const)
  have d0: "\<And>v. map_of (initInDegree ns) v = (if v \<in> ?ids then Some 0 else None)"
    by (simp add: initInDegree_def map_of_foldl_update_const)
  have d0_dist: "distinct (map fst (initInDegree ns))"
    unfolding initInDegree_def by (rule distinct_foldl_update) simp
  have d0_keys: "fst ` set (initInDegree ns) = ?ids"
    unfolding initInDegree_def by (simp add: keys_foldl_update)
  have "\<forall>c\<in>set conns. source c \<in> dom (map_of (initGraph ns)) \<and> target c \<in> dom (map_of (initInDegree ns))"
    using wf by (auto simp: g0 d0 dom_def)
  from addEdges_ok[OF this] obtain g d where
    run: "addEdges conns (initGraph ns) (initInDegree ns) = Inr (g, d)"
    and g: "\<forall>v. map_of g v
          = map_option (\<lambda>ts. ts @ map target (filter (\<lambda>c. source c = v) conns)) (map_of (initGraph ns) v)"
    and d: "\<forall>v. map_of d v
          = map_option (\<lambda>k. k + int (length (filter (\<lambda>c. target c = v) conns))) (map_of (initInDegree ns) v)"
    and keys: "map fst d = map fst (initInDegree ns)"
    by blast
  have gf: "graphFor ns conns g (mkNodeMap ns)"
    unfolding graphFor_def using dist wf g by (auto simp: g0 map_of_mkNodeMap)
  let ?queue = "map fst (filter (\<lambda>p. snd p = 0) d)"
  have d_dist: "distinct (map fst d)" using keys d0_dist by simp
  have d_val: "\<And>v. v \<in> ?ids \<Longrightarrow> map_of d v = Some (remaining conns {} v)"
    using d by (simp add: d0 remaining_def)
  have q_mem: "\<And>v. v \<in> set ?queue \<longleftrightarrow> map_of d v = Some 0"
    using d_dist by (auto simp: image_iff)
  have q_ids: "set ?queue \<subseteq> ?ids"
  proof
    fix v assume "v \<in> set ?queue"
    then have "v \<in> fst ` set d" by auto
    also have "fst ` set d = set (map fst d)" by simp
    also have "\<dots> = ?ids" unfolding keys using d0_keys by simp
    finally show "v \<in> ?ids" .
  qed
  have "kahnInv ns conns d ?queue []"
    unfolding kahnInv_def
  proof (intro conjI)
    show "distinct (map node_id [] @ ?queue)"
      using d_dist by (simp add: distinct_map_filter)
    show "\<forall>v\<in>?ids. map_of d v = Some (remaining conns (node_id ` set []) v)"
      using d_val by simp
    show "\<forall>v\<in>?ids. remaining conns (node_id ` set []) v = 0 \<longleftrightarrow> v \<in> node_id ` set [] \<union> set ?queue"
    proof
      fix v assume "v \<in> ?ids"
      from d_val[OF this] q_mem[of v]
      show "remaining conns (node_id ` set []) v = 0 \<longleftrightarrow> v \<in> node_id ` set [] \<union> set ?queue"
        by simp
    qed
    show "topoOrdered conns (map node_id [])" by (simp add: topoOrdered_def)
  qed (use q_ids in simp_all)
  from kahnLoop_correct[OF gf this] run show ?thesis
    by (simp add: topologicalSort_def)
qed

lemma andThen_Inr [simp]: "andThen (Inr x) f = f x"
  by (simp add: andThen_def)

lemma andThen_Inl [simp]: "andThen (Inl e) f = Inl e"
  by (simp add: andThen_def)

lemma andThen_eq_Inr: "andThen m f = Inr y \<longleftrightarrow> (\<exists>x. m = Inr x \<and> f x = Inr y)"
  by (cases m) simp_all

lemma writeLine_eq_Inr:
  "writeLine line st = Inr st' \<longleftrightarrow>
     0 \<le> indentLevel st \<and>
     st' = st\<lparr>outputLines :=
                outputLines st @ [repeatStr ''    '' (indentLevel st) @ line]\<rparr>"
  by (auto simp: writeLine_def)

lemma writeLine_prefix:
  "writeLine line st = Inr st' \<Longrightarrow> prefix (outputLines st) (outputLines st')"
  by (auto simp: writeLine_eq_Inr)

lemma outputLines_simps [simp]:
  "outputLines (indent st) = outputLines st"
  "outputLines (dedent st) = outputLines st"
  "outputLines (setOutput k v st) = outputLines st"
  by (simp_all add: indent_def dedent_def setOutput_def)

lemma leaf_prefix:
  "compileUpdateEvent node st = Inr st' \<Longrightarrow> prefix (outputLines st) (outputLines st')"
  "compileCollisionEvent node st = Inr st' \<Longrightarrow> prefix (outputLines st) (outputLines st')"
  "compileGetEntities node st = Inr st' \<Longrightarrow> prefix (outputLines st) (outputLines st')"
  "compileGetComponent node cm st = Inr st' \<Longrightarrow> prefix (outputLines st) (outputLines st')"
  "compileSetComponent node cm st = Inr st' \<Longrightarrow> prefix (outputLines st) (outputLines st')"
  "compileMathOperation node cm op st = Inr st' \<Longrightarrow> prefix (outputLines st) (outputLines st')"
  by (auto simp: compileUpdateEvent_def compileCollisionEvent_def compileGetEntities_def
        compileGetComponent_def compileSetComponent_def compileMathOperation_def
        Let_def andThen_eq_Inr writeLine_eq_Inr)

lemma compileTargets_prefix:
  assumes "appending self"
  shows "compileTargets self conns cm nm st = Inr st' \<Longrightarrow> prefix (outputLines st) (outputLines st')"
proof (induction conns arbitrary: st)
  case Nil
  then show ?case by simp
next
  case (Cons conn conns)
  show ?case
  proof (cases "map_of nm (target conn)")
    case None
    with Cons show ?thesis by simp
  next
    case (Some t)
    with Cons.prems obtain s1 where s1: "self t cm nm st = Inr s1"
      and rest: "compileTargets self conns cm nm s1 = Inr st'"
      by (auto simp: andThen_eq_Inr)
    from assms s1 have "prefix (outputLines st) (outputLines s1)"
      by (auto simp: appending_def)
    with Cons.IH[OF rest] show ?thesis by (blast intro: prefix_order.trans)
  qed
qed

lemma compileIfStatement_prefix:
  assumes "appending self" and "compileIfStatement self node cm nm st = Inr st'"
  shows "prefix (outputLines st) (outputLines st')"
proof -
  note ct = compileTargets_prefix[OF assms(1)]
  from assms(2) obtain s1 s2 s3 where
    s1: "writeLine (''if '' @ orElse (getInputValue st (node_id node) ''condition'' cm) ''false'' @ '' {'') st = Inr s1"
    and s2: "compileTargets self (connectionsAt cm (node_id node @ ''_then'')) cm nm (indent s1) = Inr s2"
    and s3: "(if connectionsAt cm (node_id node @ ''_else'') \<noteq> [] then
              andThen (writeLine ''} else {'' (dedent s2))
                (\<lambda>st. andThen (compileTargets self (connectionsAt cm (node_id node @ ''_else'')) cm nm (indent st))
                (\<lambda>st. Inr (dedent st)))
            else Inr (dedent s2)) = Inr s3"
    and s4: "writeLine ''}'' s3 = Inr st'"
    by (auto simp: compileIfStatement_def Let_def andThen_eq_Inr)
  have p1: "prefix (outputLines st) (outputLines s1)" using s1 by (rule writeLine_prefix)
  have p2: "prefix (outputLines s1) (outputLines s2)" using ct[OF s2] by simp
  have p3: "prefix (outputLines s2) (outputLines s3)"
  proof (cases "connectionsAt cm (node_id node @ ''_else'') \<noteq> []")
    case False
    with s3 show ?thesis by auto
  next
    case True
    with s3 obtain e1 e2 where e1: "writeLine ''} else {'' (dedent s2) = Inr e1"
      and e2: "compileTargets self (connectionsAt cm (node_id node @ ''_else'')) cm nm (indent e1) = Inr e2"
      and e3: "s3 = dedent e2"
      by (auto simp: andThen_eq_Inr)
    from writeLine_prefix[OF e1] ct[OF e2] e3 show ?thesis
      by (auto intro: prefix_order.trans)
  qed
  have p4: "prefix (outputLines s3) (outputLines st')" using s4 by (rule writeLine_prefix)
  from p1 p2 p3 p4 show ?thesis by (blast intro: prefix_order.trans)
qed

lemma compileForEach_prefix:
  assumes "appending self" and "compileForEach self node cm nm st = Inr st'"
  shows "prefix (outputLines st) (outputLines st')"
proof -
  from assms(2) obtain s1 s2 where
    s1: "writeLine (''for '' @ ''item_'' @ sanitizeId (node_id node) @ '' in ''
          @ showNull (getInputValue st (node_id node) ''array'' cm) @ ''.iter() {'') st = Inr s1"
    and s2: "compileTargets self (connectionsAt cm (node_id node @ ''_body'')) cm nm
               (setOutput (node_id node @ ''_item'') (''item_'' @ sanitizeId (node_id node)) (indent s1)) = Inr s2"
    and s3: "writeLine ''}'' (dedent s2) = Inr st'"
    by (auto simp: compileForEach_def Let_def andThen_eq_Inr)
  from writeLine_prefix[OF s1] compileTargets_prefix[OF assms(1) s2] writeLine_prefix[OF s3]
  show ?thesis by (auto intro: prefix_order.trans)
qed

lemma dispatch_prefix:
  assumes "appending self" and "dispatch self node cm nm st = Inr st'"
  shows "prefix (outputLines st) (outputLines st')"
  using assms(2) compileIfStatement_prefix[OF assms(1)] compileForEach_prefix[OF assms(1)]
  by (auto simp: dispatch_def leaf_prefix writeLine_prefix split: if_splits)

lemma compileNode_appending: "appending (compileNode depth)"
proof (induction depth)
  case 0
  show ?case by (simp add: appending_def)
next
  case (Suc depth)
  show ?case
    unfolding appending_def
  proof (intro allI impI)
    fix node cm nm st st'
    assume "compileNode (Suc depth) node cm nm st = Inr st'"
    then obtain s1 s2 where
      s1: "writeLine (''// Node: '' @ orElse (label (node_data node)) (node_type node)) st = Inr s1"
      and s2: "dispatch (compileNode depth) node cm nm s1 = Inr s2"
      and s3: "writeLine [] s2 = Inr st'"
      by (auto simp: andThen_eq_Inr)
    from writeLine_prefix[OF s1] dispatch_prefix[OF Suc s2] writeLine_prefix[OF s3]
    show "prefix (outputLines st) (outputLines st')"
      by (blast intro: prefix_order.trans)
  qed
qed

lemma compileNode_prefix:
  "compileNode depth node cm nm st = Inr st' \<Longrightarrow> prefix (outputLines st) (outputLines st')"
  using compileNode_appending[of depth] by (auto simp: appending_def)

lemma compileNode_emits_header:
  "compileNode depth node cm nm st = Inr st' \<Longrightarrow> outputLines st' \<noteq> outputLines st"
proof (cases depth)
  case 0
  assume "compileNode depth node cm nm st = Inr st'"
  with 0 show ?thesis by simp
next
  case (Suc d)
  assume "compileNode depth node cm nm st = Inr st'"
  with Suc obtain s1 s2 where
      s1: "writeLine (''// Node: '' @ orElse (label (node_data node)) (node_type node)) st = Inr s1"
      and s2: "dispatch (compileNode d) node cm nm s1 = Inr s2"
      and s3: "writeLine [] s2 = Inr st'"
      by (auto simp: andThen_eq_Inr)
  from s1 have "length (outputLines s1) = Suc (length (outputLines st))"
    by (auto simp: writeLine_eq_Inr)
  moreover from dispatch_prefix[OF compileNode_appending s2] have "length (outputLines s1) \<le> length (outputLines s2)"
    by (rule prefix_length_le)
  moreover from writeLine_prefix[OF s3] have "length (outputLines s2) \<le> length (outputLines st')"
    by (rule prefix_length_le)
  ultimately show ?thesis by auto
qed

lemma compileNodes_prefix:
  "compileNodes depth ns cm nm st = Inr st' \<Longrightarrow> prefix (outputLines st) (outputLines st')"
proof (induction ns arbitrary: st)
  case Nil
  then show ?case by simp
next
  case (Cons n ns)
  then obtain s1 where s1: "compileNode depth n cm nm st = Inr s1"
    and rest: "compileNodes depth ns cm nm s1 = Inr st'"
    by (auto simp: andThen_eq_Inr)
  from compileNode_prefix[OF s1] Cons.IH[OF rest] show ?case
    by (blast intro: prefix_order.trans)
qed

lemma compileNodes_split:
  "compileNodes depth (xs @ n # ys) cm nm st = Inr st' \<Longrightarrow>
   \<exists>s1 s2. compileNodes depth xs cm nm st = Inr s1 \<and> compileNode depth n cm nm s1 = Inr s2
          \<and> compileNodes depth ys cm nm s2 = Inr st'"
  by (induction xs arbitrary: st) (auto simp: andThen_eq_Inr)

lemma topoOrdered_split:
  assumes "topoOrdered conns l" and "c \<in> set conns" and "target c \<in> set l"
  shows "\<exists>xs ys zs. l = xs @ source c # ys @ target c # zs"
proof -
  from assms(3) obtain i where i: "i < length l" "l ! i = target c"
    by (auto simp: in_set_conv_nth)
  with assms(1,2) have "source c \<in> set (take i l)"
    by (auto simp: topoOrdered_def)
  then obtain xs ys where "take i l = xs @ source c # ys"
    by (auto simp: in_set_conv_decomp)
  moreover have "l = take i l @ target c # drop (Suc i) l"
    unfolding i(2)[symmetric] by (rule id_take_nth_drop[OF i(1)])
  ultimately have "l = xs @ source c # ys @ target c # drop (Suc i) l"
    by simp
  then show ?thesis by blast
qed

lemma topoOrdered_trancl:
  assumes topo: "topoOrdered conns l" and path: "(u, w) \<in> (edges conns)\<^sup>+"
  shows "\<forall>i<length l. w = l ! i \<longrightarrow> (\<exists>j<i. u = l ! j)"
  using path
proof (induction rule: trancl_induct)
  case (base y)
  then obtain c where c: "c \<in> set conns" "source c = u" "target c = y"
    by (auto simp: edges_def)
  show ?case
  proof (intro allI impI)
    fix i assume "i < length l" "y = l ! i"
    with topo c have "u \<in> set (take i l)" by (auto simp: topoOrdered_def)
    then show "\<exists>j<i. u = l ! j" by (auto simp: in_set_conv_nth)
  qed
next
  case (step y z)
  then obtain c where c: "c \<in> set conns" "source c = y" "target c = z"
    by (auto simp: edges_def)
  show ?case
  proof (intro allI impI)
    fix i assume i: "i < length l" "z = l ! i"
    with topo c have "y \<in> set (take i l)" by (auto simp: topoOrdered_def)
    then obtain j where j: "j < i" "y = l ! j" by (auto simp: in_set_conv_nth)
    from j i have "j < length l" by simp
    with step.IH j obtain k where "k < j" "u = l ! k" by blast
    with j show "\<exists>j<i. u = l ! j" by (intro exI[of _ k]) simp
  qed
qed

lemma kahn_no_cyclic_node:
  assumes inv: "kahnInv ns conns degF [] res" and n: "n \<in> set res"
  shows "(node_id n, node_id n) \<notin> (edges conns)\<^sup>+"
proof
  assume cyc: "(node_id n, node_id n) \<in> (edges conns)\<^sup>+"
  let ?l = "map node_id res"
  from inv have topo: "topoOrdered conns ?l" and dist: "distinct ?l"
    by (simp_all add: kahnInv_def)
  from n obtain i where i: "i < length ?l" "?l ! i = node_id n"
    by (auto simp: in_set_conv_nth)
  with topoOrdered_trancl[OF topo cyc] obtain j where "j < i" "node_id n = ?l ! j"
    by force
  with i dist show False
    by (auto simp: distinct_conv_nth)
qed

lemma kahn_complete:
  assumes inv: "kahnInv ns conns degF [] res"
      and wf: "\<forall>c\<in>set conns. source c \<in> node_id ` set ns \<and> target c \<in> node_id ` set ns"
      and ac: "acyclic (edges conns)"
  shows "node_id ` set res = node_id ` set ns"
proof -
  let ?P = "node_id ` set res"
  let ?U = "node_id ` set ns - ?P"
  from inv have sub: "set res \<subseteq> set ns"
    and zero: "\<forall>v\<in>node_id ` set ns. remaining conns ?P v = 0 \<longleftrightarrow> v \<in> ?P \<union> set []"
    by (simp_all add: kahnInv_def)
  have pred: "\<exists>u\<in>?U. (u, w) \<in> edges conns" if w: "w \<in> ?U" for w
  proof -
    from w bspec[OF zero, of w] have "remaining conns ?P w \<noteq> 0" by simp
    then obtain c where c: "c \<in> set conns" "target c = w" "source c \<notin> ?P"
      by (auto simp: remaining_zero_iff)
    with wf have "source c \<in> ?U" by blast
    moreover from c have "(source c, w) \<in> edges conns" by (auto simp: edges_def)
    ultimately show ?thesis by blast
  qed
  have fin: "finite (edges conns)" by (simp add: edges_def)
  from fin ac have wfr: "wf (edges conns)" by (rule finite_acyclic_wf)
  have "?U = {}"
  proof (rule ccontr)
    assume "?U \<noteq> {}"
    then obtain x where "x \<in> ?U" by blast
    with wfr obtain z where z: "z \<in> ?U" "\<And>y. (y, z) \<in> edges conns \<Longrightarrow> y \<notin> ?U"
      by (rule wfE_min) blast
    with pred[OF z(1)] show False by blast
  qed
  with sub show ?thesis by blast
qed

lemma kahn_sorted_ancestors:
  assumes inv: "kahnInv ns conns degF [] res" and n: "n \<in> set res"
      and path: "(u, node_id n) \<in> (edges conns)\<^sup>*"
  shows "(u, u) \<notin> (edges conns)\<^sup>+"
proof -
  let ?l = "map node_id res"
  from inv have topo: "topoOrdered conns ?l"
    by (simp add: kahnInv_def)
  from path have "u = node_id n \<or> (u, node_id n) \<in> (edges conns)\<^sup>+"
    by (auto simp: rtrancl_eq_or_trancl)
  then show ?thesis
  proof
    assume "u = node_id n"
    with kahn_no_cyclic_node[OF inv n] show ?thesis by simp
  next
    assume tr: "(u, node_id n) \<in> (edges conns)\<^sup>+"
    from n obtain i where i: "i < length ?l" "?l ! i = node_id n"
      by (auto simp: in_set_conv_nth)
    with topoOrdered_trancl[OF topo tr] obtain j where j: "j < i" "u = ?l ! j"
      by force
    with i have "j < length res" by simp
    then have "res ! j \<in> set res" by simp
    moreover from j \<open>j < length res\<close> have "u = node_id (res ! j)" by simp
    ultimately show ?thesis using kahn_no_cyclic_node[OF inv] by blast
  qed
qed

lemma kahn_unsorted_cycle:
  assumes inv: "kahnInv ns conns degF [] res"
      and wf: "\<forall>c\<in>set conns. source c \<in> node_id ` set ns \<and> target c \<in> node_id ` set ns"
      and v: "v \<in> node_id ` set ns" "v \<notin> node_id ` set res"
  shows "\<exists>u. (u, u) \<in> (edges conns)\<^sup>+ \<and> (u, v) \<in> (edges conns)\<^sup>*"
proof -
  let ?P = "node_id ` set res"
  define U where "U = {w \<in> node_id ` set ns - ?P. (w, v) \<in> (edges conns)\<^sup>*}"
  define R where "R = edges conns \<inter> U \<times> U"
  have U_iff: "w \<in> U \<longleftrightarrow> w \<in> node_id ` set ns \<and> w \<notin> ?P \<and> (w, v) \<in> (edges conns)\<^sup>*" for w
    by (simp add: U_def)
  from inv have zero: "\<forall>v\<in>node_id ` set ns. remaining conns ?P v = 0 \<longleftrightarrow> v \<in> ?P \<union> set []"
    by (simp add: kahnInv_def)
  have pred: "\<exists>u. u \<in> U \<and> (u, w) \<in> edges conns" if w: "w \<in> U" for w
  proof -
    from w have w1: "w \<in> node_id ` set ns" and w2: "w \<notin> ?P" and w3: "(w, v) \<in> (edges conns)\<^sup>*"
      by (simp_all add: U_iff)
    from w1 w2 bspec[OF zero w1] have "remaining conns ?P w \<noteq> 0" by simp
    then obtain c where c: "c \<in> set conns" "target c = w" "source c \<notin> ?P"
      by (auto simp: remaining_zero_iff)
    from c have e: "(source c, w) \<in> edges conns" by (auto simp: edges_def)
    from e w3 have "(source c, v) \<in> (edges conns)\<^sup>*" by (rule converse_rtrancl_into_rtrancl)
    moreover from bspec[OF wf c(1)] have "source c \<in> node_id ` set ns" by simp
    ultimately have "source c \<in> U" using c(3) by (simp add: U_iff)
    with e show ?thesis by (intro exI[of _ "source c"] conjI)
  qed
  have vU: "v \<in> U" using v by (simp add: U_iff)
  have "\<not> acyclic R"
  proof
    assume ac: "acyclic R"
    have "finite (edges conns)" by (simp add: edges_def)
    then have "finite R" by (simp add: R_def)
    from this ac have wfR: "wf R" by (rule finite_acyclic_wf)
    from wfR vU obtain z where z: "z \<in> U" "\<And>y. (y, z) \<in> R \<Longrightarrow> y \<notin> U"
      by (rule wfE_min) blast
    from pred[OF z(1)] obtain u where u: "u \<in> U" "(u, z) \<in> edges conns" by (elim exE conjE)
    with z(1) have "(u, z) \<in> R" by (simp add: R_def)
    from z(2)[OF this] u(1) show False by simp
  qed
  then obtain x where x: "(x, x) \<in> R\<^sup>+" by (auto simp: acyclic_def)
  have "R \<subseteq> edges conns" by (simp add: R_def)
  then have "R\<^sup>+ \<subseteq> (edges conns)\<^sup>+" by (rule trancl_mono_subset)
  with x have cyc: "(x, x) \<in> (edges conns)\<^sup>+" by (rule subsetD[rotated])
  from tranclD[OF x] obtain z where "(x, z) \<in> R" by (elim exE conjE)
  then have "x \<in> U" by (simp add: R_def)
  then have "(x, v) \<in> (edges conns)\<^sup>*" by (simp add: U_iff)
  with cyc show ?thesis by (intro exI[of _ x] conjI)
qed

lemma kahn_exact:
  assumes inv: "kahnInv ns conns degF [] res"
      and dist: "distinct (map node_id ns)"
      and wf: "\<forall>c\<in>set conns. source c \<in> node_id ` set ns \<and> target c \<in> node_id ` set ns"
  shows "set res = {n \<in> set ns. \<not> (\<exists>u. (u, u) \<in> (edges conns)\<^sup>+ \<and> (u, node_id n) \<in> (edges conns)\<^sup>*)}"
    and "distinct res"
    and "topoOrdered conns (map node_id res)"
proof -
  from inv have sub: "set res \<subseteq> set ns" and d: "distinct (map node_id res)"
    and topo: "topoOrdered conns (map node_id res)"
    by (simp_all add: kahnInv_def)
  from d show "distinct res" by (simp add: distinct_map)
  from topo show "topoOrdered conns (map node_id res)" .
  from dist have inj: "inj_on node_id (set ns)" by (simp add: distinct_map)
  show "set res = {n \<in> set ns. \<not> (\<exists>u. (u, u) \<in> (edges conns)\<^sup>+ \<and> (u, node_id n) \<in> (edges conns)\<^sup>*)}"
  proof (intro equalityI subsetI)
    fix n assume n: "n \<in> set res"
    with sub kahn_sorted_ancestors[OF inv n]
    show "n \<in> {n \<in> set ns. \<not> (\<exists>u. (u, u) \<in> (edges conns)\<^sup>+ \<and> (u, node_id n) \<in> (edges conns)\<^sup>*)}"
      by blast
  next
    fix n
    assume "n \<in> {n \<in> set ns. \<not> (\<exists>u. (u, u) \<in> (edges conns)\<^sup>+ \<and> (u, node_id n) \<in> (edges conns)\<^sup>*)}"
    then have n: "n \<in> set ns"
      and free: "\<not> (\<exists>u. (u, u) \<in> (edges conns)\<^sup>+ \<and> (u, node_id n) \<in> (edges conns)\<^sup>*)"
      by blast+
    have "node_id n \<in> node_id ` set res"
    proof (rule ccontr)
      assume "node_id n \<notin> node_id ` set res"
      from n have "node_id n \<in> node_id ` set ns" by (rule imageI)
      from kahn_unsorted_cycle[OF inv wf this \<open>node_id n \<notin> node_id ` set res\<close>] free
      show False by (rule notE[rotated])
    qed
    then obtain m where m: "m \<in> set res" "node_id m = node_id n" by force
    with sub have "m \<in> set ns" by blast
    from inj_onD[OF inj m(2) this n] m(1) show "n \<in> set res" by simp
  qed
qed

lemma compile_Inr_D:
  assumes "compile depth script st0 = Inr (sys, st)"
  shows "\<exists>sortedNodes stIn stOut.
     topologicalSort (nodes script) (connections script) = Inr sortedNodes \<and>
     compileNodes depth sortedNodes (buildConnectionMap (connections script))
       (mkNodeMap (nodes script)) stIn = Inr stOut \<and>
     outputLines stIn =
       [''pub struct '' @ toRustName (script_name script) @ ''System {'',
        ''    // System state'', ''}'', [],
        ''impl System for '' @ toRustName (script_name script) @ ''System {'',
        ''    fn execute(&mut self, world: &mut World, physics: &mut PhysicsWorld, dt: f32) {''] \<and>
     indentLevel stIn = 2 \<and> nodeOutputs stIn = [] \<and>
     outputLines st = outputLines stOut
        @ [repeatStr ''    '' (indentLevel stOut - 1) @ ''}'',
           repeatStr ''    '' (indentLevel stOut - 2) @ ''}''] \<and>
     sys = \<lparr>sys_name = script_name script, code = join [CHR 0x0A] (outputLines st),
            dependencies = extractDependencies (nodes script)\<rparr>"
proof -
  let ?cm = "buildConnectionMap (connections script)"
  let ?nm = "mkNodeMap (nodes script)"
  from assms obtain sortedNodes s1 s2 s3 s4 s5 s6 s7 s8 where
    ts: "topologicalSort (nodes script) (connections script) = Inr sortedNodes"
    and s1: "writeLine (''pub struct '' @ toRustName (script_name script) @ ''System {'') (reset st0) = Inr s1"
    and s2: "writeLine ''// System state'' (indent s1) = Inr s2"
    and s3: "writeLine ''}'' (dedent s2) = Inr s3"
    and s4: "writeLine [] s3 = Inr s4"
    and s5: "writeLine (''impl System for '' @ toRustName (script_name script) @ ''System {'') s4 = Inr s5"
    and s6: "writeLine ''fn execute(&mut self, world: &mut World, physics: &mut PhysicsWorld, dt: f32) {''
               (indent s5) = Inr s6"
    and s7: "compileNodes depth sortedNodes ?cm ?nm (indent s6) = Inr s7"
    and s8: "writeLine ''}'' (dedent s7) = Inr s8"
    and s9: "writeLine ''}'' (dedent s8) = Inr st"
    and sys: "sys = \<lparr>sys_name = script_name script, code = join [CHR 0x0A] (outputLines st),
            dependencies = extractDependencies (nodes script)\<rparr>"
    unfolding compile_def Let_def by (auto simp: andThen_eq_Inr)
  from s1 s2 s3 s4 s5 s6 have
    "outputLines (indent s6) =
       [''pub struct '' @ toRustName (script_name script) @ ''System {'',
        ''    // System state'', ''}'', [],
        ''impl System for '' @ toRustName (script_name script) @ ''System {'',
        ''    fn execute(&mut self, world: &mut World, physics: &mut PhysicsWorld, dt: f32) {'']"
    and "indentLevel (indent s6) = 2" and "nodeOutputs (indent s6) = []"
    by (auto simp: writeLine_eq_Inr reset_def indent_def dedent_def repeatStr_def)
  moreover from s8 s9 have "outputLines st = outputLines s7
        @ [repeatStr ''    '' (indentLevel s7 - 1) @ ''}'',
           repeatStr ''    '' (indentLevel s7 - 2) @ ''}'']"
    by (auto simp: writeLine_eq_Inr dedent_def)
  ultimately show ?thesis using ts s7 sys by blast
qed

lemma wellFormed_sort:
  assumes "wellFormed script"
  shows "\<exists>res degF. topologicalSort (nodes script) (connections script) = Inr res
           \<and> kahnInv (nodes script) (connections script) degF [] res"
  using assms by (intro topologicalSort_inv) (simp_all add: wellFormed_def)

lemma acyclic_empty_rel: "acyclic {}"
  by (simp add: acyclic_def)

lemma acyclic_sink:
  assumes "\<And>x y. (x, y) \<in> r \<Longrightarrow> y = b \<and> x \<noteq> b"
  shows "acyclic r"
proof (rule acyclicI, intro allI notI)
  fix x assume "(x, x) \<in> r\<^sup>+"
  from tranclD[OF this] obtain y where xy: "(x, y) \<in> r" and yx: "(y, x) \<in> r\<^sup>*"
    by blast
  from assms[OF xy] have y: "y = b" and x: "x \<noteq> b" by simp_all
  from yx[unfolded y] x obtain z where "(b, z) \<in> r"
    by (auto elim: converse_rtranclE)
  from assms[OF this] show False by simp
qed

subsection \<open>Nodes compiled in turn\<close>

lemma compiledInTurn_length:
  "compiledInTurn self ns cm nm st steps \<Longrightarrow> length steps = length ns"
  by (induction ns arbitrary: st steps) (auto split: list.splits)

lemma compiledInTurn_lines:
  "compiledInTurn self ns cm nm st steps \<Longrightarrow>
   outputLines (last (st # map snd steps)) = outputLines st @ concat (map fst steps)"
proof (induction ns arbitrary: st steps)
  case Nil
  then show ?case by simp
next
  case (Cons n ns)
  from Cons.prems obtain ls s rest where
    steps: "steps = (ls, s) # rest" and ls: "outputLines s = outputLines st @ ls"
    and rest: "compiledInTurn self ns cm nm s rest"
    by (auto split: list.splits)
  have "last (st # map snd steps) = last (s # map snd rest)"
    by (simp add: steps)
  with Cons.IH[OF rest] ls show ?case by (simp add: steps)
qed

lemma compiledInTurn_unique:
  "compiledInTurn self ns cm nm st steps \<Longrightarrow> compiledInTurn self ns cm nm st steps' \<Longrightarrow>
   steps = steps'"
proof (induction ns arbitrary: st steps steps')
  case Nil
  then show ?case by simp
next
  case (Cons n ns)
  from Cons.prems(1) obtain ls s rest where
    a: "steps = (ls, s) # rest" "self n cm nm st = Inr s" "outputLines s = outputLines st @ ls"
       "compiledInTurn self ns cm nm s rest"
    by (auto split: list.splits)
  from Cons.prems(2) obtain ls' s' rest' where
    b: "steps' = (ls', s') # rest'" "self n cm nm st = Inr s'" "outputLines s' = outputLines st @ ls'"
       "compiledInTurn self ns cm nm s' rest'"
    by (auto split: list.splits)
  from a(2) b(2) have s: "s' = s" by simp
  with a(3) b(3) have "ls' = ls" by simp
  moreover from Cons.IH[OF a(4) b(4)[unfolded s]] have "rest = rest'" .
  ultimately show ?case by (simp add: a(1) b(1) s)
qed

lemma compiledInTurn_append:
  "compiledInTurn self (xs @ ys) cm nm st steps \<longleftrightarrow>
     (\<exists>sx sy. steps = sx @ sy \<and> compiledInTurn self xs cm nm st sx \<and>
              compiledInTurn self ys cm nm (last (st # map snd sx)) sy)"
proof (induction xs arbitrary: st steps)
  case Nil
  then show ?case by simp
next
  case (Cons x xs)
  show ?case
  proof
    assume "compiledInTurn self ((x # xs) @ ys) cm nm st steps"
    then obtain ls s rest where
      steps: "steps = (ls, s) # rest" and r: "self x cm nm st = Inr s"
      and l: "outputLines s = outputLines st @ ls"
      and t: "compiledInTurn self (xs @ ys) cm nm s rest"
      by (auto split: list.splits)
    from t[unfolded Cons.IH] obtain sx sy where
      rest: "rest = sx @ sy" and a: "compiledInTurn self xs cm nm s sx"
      and b: "compiledInTurn self ys cm nm (last (s # map snd sx)) sy"
      by blast
    from r l a have "compiledInTurn self (x # xs) cm nm st ((ls, s) # sx)" by simp
    moreover from b have "compiledInTurn self ys cm nm (last (st # map snd ((ls, s) # sx))) sy"
      by simp
    moreover from steps rest have "steps = ((ls, s) # sx) @ sy" by simp
    ultimately show "\<exists>sx sy. steps = sx @ sy \<and> compiledInTurn self (x # xs) cm nm st sx \<and>
              compiledInTurn self ys cm nm (last (st # map snd sx)) sy"
      by blast
  next
    assume "\<exists>sx sy. steps = sx @ sy \<and> compiledInTurn self (x # xs) cm nm st sx \<and>
              compiledInTurn self ys cm nm (last (st # map snd sx)) sy"
    then obtain sx sy where
      steps: "steps = sx @ sy" and a: "compiledInTurn self (x # xs) cm nm st sx"
      and b: "compiledInTurn self ys cm nm (last (st # map snd sx)) sy"
      by blast
    from a obtain ls s rest where
      sx: "sx = (ls, s) # rest" and r: "self x cm nm st = Inr s"
      and l: "outputLines s = outputLines st @ ls"
      and t: "compiledInTurn self xs cm nm s rest"
      by (auto split: list.splits)
    from b have "compiledInTurn self ys cm nm (last (s # map snd rest)) sy"
      by (simp add: sx)
    with t have "compiledInTurn self (xs @ ys) cm nm s (rest @ sy)"
      unfolding Cons.IH by blast
    with r l show "compiledInTurn self ((x # xs) @ ys) cm nm st steps"
      by (simp add: steps sx)
  qed
qed


lemma compileNodes_inTurn:
  assumes "compileNodes depth ns cm nm st = Inr st'"
  shows "\<exists>steps. compiledInTurn (compileNode depth) ns cm nm st steps \<and>
                 st' = last (st # map snd steps)"
  using assms
proof (induction ns arbitrary: st)
  case Nil
  then show ?case by simp
next
  case (Cons n ns)
  from Cons.prems obtain s where
    s: "compileNode depth n cm nm st = Inr s" and r: "compileNodes depth ns cm nm s = Inr st'"
    by (auto simp: andThen_eq_Inr)
  from compileNode_prefix[OF s] obtain ls where ls: "outputLines s = outputLines st @ ls"
    by (auto simp: prefix_def)
  from Cons.IH[OF r] obtain steps where
    st: "compiledInTurn (compileNode depth) ns cm nm s steps"
    and l: "st' = last (s # map snd steps)"
    by blast
  from s ls st have "compiledInTurn (compileNode depth) (n # ns) cm nm st ((ls, s) # steps)"
    by simp
  moreover from l have "st' = last (st # map snd ((ls, s) # steps))" by simp
  ultimately show ?case by blast
qed

lemma compile_Inr_steps:
  assumes run: "compile depth script st0 = Inr (sys, st)"
      and sorted: "topologicalSort (nodes script) (connections script) = Inr sortedNodes"
  shows "\<exists>steps stOut.
     compiledInTurn (compileNode depth) sortedNodes (buildConnectionMap (connections script))
       (mkNodeMap (nodes script))
       \<lparr>indentLevel = 2,
        outputLines =
          [''pub struct '' @ toRustName (script_name script) @ ''System {'',
           ''    // System state'', ''}'', [],
           ''impl System for '' @ toRustName (script_name script) @ ''System {'',
           ''    fn execute(&mut self, world: &mut World, physics: &mut PhysicsWorld, dt: f32) {''],
        nodeOutputs = []\<rparr> steps \<and>
     stOut = last (\<lparr>indentLevel = 2,
        outputLines =
          [''pub struct '' @ toRustName (script_name script) @ ''System {'',
           ''    // System state'', ''}'', [],
           ''impl System for '' @ toRustName (script_name script) @ ''System {'',
           ''    fn execute(&mut self, world: &mut World, physics: &mut PhysicsWorld, dt: f32) {''],
        nodeOutputs = []\<rparr> # map snd steps) \<and>
     st = \<lparr>indentLevel = indentLevel stOut - 2,
           outputLines =
             [''pub struct '' @ toRustName (script_name script) @ ''System {'',
              ''    // System state'', ''}'', [],
              ''impl System for '' @ toRustName (script_name script) @ ''System {'',
              ''    fn execute(&mut self, world: &mut World, physics: &mut PhysicsWorld, dt: f32) {'']
             @ concat (map fst steps)
             @ [repeatStr ''    '' (indentLevel stOut - 1) @ ''}'',
                repeatStr ''    '' (indentLevel stOut - 2) @ ''}''],
           nodeOutputs = nodeOutputs stOut\<rparr> \<and>
     sys = \<lparr>sys_name = script_name script, code = join [CHR 0x0A] (outputLines st),
            dependencies = extractDependencies (nodes script)\<rparr>"
proof -
  let ?cm = "buildConnectionMap (connections script)"
  let ?nm = "mkNodeMap (nodes script)"
  let ?hdr = "[''pub struct '' @ toRustName (script_name script) @ ''System {'',
           ''    // System state'', ''}'', [],
           ''impl System for '' @ toRustName (script_name script) @ ''System {'',
           ''    fn execute(&mut self, world: &mut World, physics: &mut PhysicsWorld, dt: f32) {'']"
  let ?s0 = "\<lparr>indentLevel = 2, outputLines = ?hdr, nodeOutputs = []\<rparr>"
  from run obtain sortedNodes' s1 s2 s3 s4 s5 s6 s7' s8 where
    ts: "topologicalSort (nodes script) (connections script) = Inr sortedNodes'"
    and s1: "writeLine (''pub struct '' @ toRustName (script_name script) @ ''System {'') (reset st0) = Inr s1"
    and s2: "writeLine ''// System state'' (indent s1) = Inr s2"
    and s3: "writeLine ''}'' (dedent s2) = Inr s3"
    and s4: "writeLine [] s3 = Inr s4"
    and s5: "writeLine (''impl System for '' @ toRustName (script_name script) @ ''System {'') s4 = Inr s5"
    and s6: "writeLine ''fn execute(&mut self, world: &mut World, physics: &mut PhysicsWorld, dt: f32) {''
               (indent s5) = Inr s6"
    and s7': "compileNodes depth sortedNodes' ?cm ?nm (indent s6) = Inr s7'"
    and s8: "writeLine ''}'' (dedent s7') = Inr s8"
    and s9: "writeLine ''}'' (dedent s8) = Inr st"
    and sys: "sys = \<lparr>sys_name = script_name script, code = join [CHR 0x0A] (outputLines st),
            dependencies = extractDependencies (nodes script)\<rparr>"
    unfolding compile_def Let_def by (auto simp: andThen_eq_Inr)
  from s1 s2 s3 s4 s5 s6 have start: "indent s6 = ?s0"
    by (auto simp: writeLine_eq_Inr reset_def indent_def dedent_def repeatStr_def)
  from ts sorted have same: "sortedNodes' = sortedNodes" by simp
  define s7 where "s7 = s7'"
  note s7 = s7'[unfolded same, folded s7_def] and s8 = s8[folded s7_def]
  from compileNodes_inTurn[OF s7[unfolded start]] obtain steps where
    steps: "compiledInTurn (compileNode depth) sortedNodes ?cm ?nm ?s0 steps"
    and last: "s7 = last (?s0 # map snd steps)"
    by blast
  from compiledInTurn_lines[OF steps] last
  have lines: "outputLines s7 = ?hdr @ concat (map fst steps)"
    by simp
  from s8 s9 lines have "st = \<lparr>indentLevel = indentLevel s7 - 2,
           outputLines = ?hdr @ concat (map fst steps)
             @ [repeatStr ''    '' (indentLevel s7 - 1) @ ''}'',
                repeatStr ''    '' (indentLevel s7 - 2) @ ''}''],
           nodeOutputs = nodeOutputs s7\<rparr>"
    by (auto simp: writeLine_eq_Inr dedent_def)
  with steps last sys show ?thesis by blast
qed

section \<open>Code units and the struct name\<close>

text \<open>
  Two values of \<^typ>\<open>char\<close> stand for two code units, and the character classes of
  the compiler are the same whether they are read on the number of a \<^typ>\<open>char\<close> or
  on the code unit it stands for.
\<close>

lemma codeUnit_eq_iff: "codeUnit c = codeUnit d \<longleftrightarrow> c = d"
proof -
  have lt: "of_char x < (256 :: nat)" for x :: char
    by (cases x) (auto simp: of_char_def horner_sum_eq_sum)
  have other: "codeUnit x = of_char x \<and> codeUnit x < 256"
    if "x \<noteq> CHR 0xB5" "x \<noteq> CHR 0xFF" for x
    using that lt[of x] by (simp add: codeUnit_def)
  have b5: "codeUnit (CHR 0xB5) = 0x39C" and ff: "codeUnit (CHR 0xFF) = 0x178"
    by (simp_all add: codeUnit_def)
  consider "c = CHR 0xB5" | "c = CHR 0xFF" | "c \<noteq> CHR 0xB5" "c \<noteq> CHR 0xFF" by blast
  then show ?thesis
  proof cases
    case 1
    consider "d = CHR 0xB5" | "d = CHR 0xFF" | "d \<noteq> CHR 0xB5" "d \<noteq> CHR 0xFF" by blast
    then show ?thesis
    proof cases
      case 3
      from other[OF 3] 1 b5 show ?thesis using 3 by auto
    qed (simp_all add: 1 b5 ff)
  next
    case 2
    consider "d = CHR 0xB5" | "d = CHR 0xFF" | "d \<noteq> CHR 0xB5" "d \<noteq> CHR 0xFF" by blast
    then show ?thesis
    proof cases
      case 3
      from other[OF 3] 2 ff show ?thesis using 3 by auto
    qed (simp_all add: 2 b5 ff)
  next
    case 3
    consider "d = CHR 0xB5" | "d = CHR 0xFF" | "d \<noteq> CHR 0xB5" "d \<noteq> CHR 0xFF" by blast
    then show ?thesis
    proof cases
      case 1
      from other[OF 3] 1 b5 show ?thesis using 3 by auto
    next
      case 2
      from other[OF 3] 2 ff show ?thesis using 3 by auto
    next
      case d: 3
      from other[OF 3] other[OF d] show ?thesis by simp
    qed
  qed
qed

lemma classes_by_codeUnit:
  "isWordChar c \<longleftrightarrow>
     (let u = codeUnit c
      in (0x61 \<le> u \<and> u \<le> 0x7A) \<or> (0x41 \<le> u \<and> u \<le> 0x5A) \<or> (0x30 \<le> u \<and> u \<le> 0x39) \<or>
         u = 0x5F)"
  "isSeparator c \<longleftrightarrow> codeUnit c \<in> {0x09, 0x0A, 0x0B, 0x0C, 0x0D, 0x20, 0xA0, 0x2D, 0x5F}"
  by (auto simp: isWordChar_def isSeparator_def codeUnit_def Let_def)

text \<open>
  \<open>toRustName\<close> on a name with each kind of separator, and on a name with code
  units above U+007F: U+00E9, \<open>t\<close>, U+00E9, a space, U+00DF, \<open>a\<close>, a hyphen, U+00F7, an
  underscore, U+039C, a no-break space and U+0178.
\<close>

lemma toRustName_examples:
  "toRustName ''my-visual_script  1'' = ''MyVisualScript1''"
  "toRustName [CHR 0xE9, CHR ''t'', CHR 0xE9, CHR '' '', CHR 0xDF, CHR ''a'', CHR ''-'', CHR 0xF7,
               CHR ''_'', CHR 0xB5, CHR 0xA0, CHR 0xFF]
   = [CHR 0xC9, CHR ''t'', CHR 0xE9, CHR ''S'', CHR ''S'', CHR ''a'', CHR 0xF7, CHR 0xB5, CHR 0xFF]"
  "map codeUnit [CHR 0xB5, CHR 0xFF] = [0x39C, 0x178]"
  by code_simp+

section \<open>Identifier sanitization\<close>

lemma isWordChar_set:
  "isWordChar c \<longleftrightarrow>
   c \<in> set ''abcdefghijklmnopqrstuvwxyzABCDEFGHIJKLMNOPQRSTUVWXYZ0123456789_''"
proof -
  let ?S = "set ''abcdefghijklmnopqrstuvwxyzABCDEFGHIJKLMNOPQRSTUVWXYZ0123456789_''"
  have "c \<in> ?S \<longleftrightarrow> (of_char c :: nat) \<in> of_char ` ?S"
    by (rule inj_image_mem_iff[OF inj_of_char, symmetric])
  also have "\<dots> \<longleftrightarrow> isWordChar c"
    unfolding isWordChar_def Let_def by (simp, arith)
  finally show ?thesis by simp
qed

text \<open>
  C9. Sanitization replaces every character of the id that is not one of the 63
  characters \<open>a-z\<close>, \<open>A-Z\<close>, \<open>0-9\<close>, \<open>_\<close> by \<open>_\<close> and keeps every other character,
  position by position; it depends on the id alone, so that it gives the same
  identifier wherever the id is referred to, and \<open>node-1 x\<close> becomes \<open>node_1_x\<close>.
\<close>

theorem sanitizeId_replaces_outside_class:
  "sanitizeId ident =
     map (\<lambda>c. if c \<in> set ''abcdefghijklmnopqrstuvwxyzABCDEFGHIJKLMNOPQRSTUVWXYZ0123456789_''
              then c else CHR ''_'') ident
   \<and> sanitizeId ''node-1 x'' = ''node_1_x''"
proof
  show "sanitizeId ident =
     map (\<lambda>c. if c \<in> set ''abcdefghijklmnopqrstuvwxyzABCDEFGHIJKLMNOPQRSTUVWXYZ0123456789_''
              then c else CHR ''_'') ident"
    unfolding sanitizeId_def by (rule map_cong[OF refl]) (simp only: isWordChar_set)
  show "sanitizeId ''node-1 x'' = ''node_1_x''"
    by (simp add: sanitizeId_def isWordChar_def)
qed

lemma shadowScript_compile:
  "compile 1 shadowScript newCompiler =
     Inr (\<lparr>sys_name = ''shadow'',
            code = join [CHR 0x0A]
              [''pub struct ShadowSystem {'', ''    // System state'', ''}'', [],
               ''impl System for ShadowSystem {'',
               ''    fn execute(&mut self, world: &mut World, physics: &mut PhysicsWorld, dt: f32) {'',
               ''        // Node: math/add'', ''        let result_a_b = 0.0 + 0.0;'', ''        '',
               ''        // Node: math/add'', ''        let result_a_b = 0.0 + 0.0;'', ''        '',
               ''    }'', ''}''],
            dependencies = []\<rparr>,
          \<lparr>indentLevel = 0,
            outputLines =
              [''pub struct ShadowSystem {'', ''    // System state'', ''}'', [],
               ''impl System for ShadowSystem {'',
               ''    fn execute(&mut self, world: &mut World, physics: &mut PhysicsWorld, dt: f32) {'',
               ''        // Node: math/add'', ''        let result_a_b = 0.0 + 0.0;'', ''        '',
               ''        // Node: math/add'', ''        let result_a_b = 0.0 + 0.0;'', ''        '',
               ''    }'', ''}''],
            nodeOutputs = [(''a.b'', ''result_a_b''), (''a_b'', ''result_a_b'')]\<rparr>)"
  by code_simp

text \<open>
  C10. Sanitization is not injective: the distinct ids \<open>a.b\<close> and \<open>a_b\<close> have the same
  sanitized form, and a script with one \<open>math/add\<close> node of each id compiles to two
  bindings of the same symbol \<open>result_a_b\<close>, the second after (and so shadowing) the
  first; the symbol table maps both ids to that one symbol.
\<close>

theorem sanitizeId_not_injective:
  "''a.b'' \<noteq> ''a_b'' \<and> sanitizeId ''a.b'' = sanitizeId ''a_b'' \<and> \<not> inj sanitizeId
   \<and> (\<exists>sys st. compile 1 shadowScript newCompiler = Inr (sys, st)
        \<and> outputLines st =
            [''pub struct ShadowSystem {'', ''    // System state'', ''}'', [],
             ''impl System for ShadowSystem {'',
             ''    fn execute(&mut self, world: &mut World, physics: &mut PhysicsWorld, dt: f32) {'',
             ''        // Node: math/add'', ''        let result_a_b = 0.0 + 0.0;'', ''        '',
             ''        // Node: math/add'', ''        let result_a_b = 0.0 + 0.0;'', ''        '',
             ''    }'', ''}'']
        \<and> map_of (nodeOutputs st) ''a.b'' = Some ''result_a_b''
        \<and> map_of (nodeOutputs st) ''a_b'' = Some ''result_a_b'')"
proof -
  have eq: "sanitizeId ''a.b'' = sanitizeId ''a_b''"
    by (simp add: sanitizeId_def isWordChar_def)
  have ne: "''a.b'' \<noteq> ''a_b''"
    by simp
  have ninj: "\<not> inj sanitizeId"
    using eq ne by (auto simp only: inj_def)
  have "\<exists>sys st. compile 1 shadowScript newCompiler = Inr (sys, st)
        \<and> outputLines st =
            [''pub struct ShadowSystem {'', ''    // System state'', ''}'', [],
             ''impl System for ShadowSystem {'',
             ''    fn execute(&mut self, world: &mut World, physics: &mut PhysicsWorld, dt: f32) {'',
             ''        // Node: math/add'', ''        let result_a_b = 0.0 + 0.0;'', ''        '',
             ''        // Node: math/add'', ''        let result_a_b = 0.0 + 0.0;'', ''        '',
             ''    }'', ''}'']
        \<and> map_of (nodeOutputs st) ''a.b'' = Some ''result_a_b''
        \<and> map_of (nodeOutputs st) ''a_b'' = Some ''result_a_b''"
    unfolding shadowScript_compile by simp
  with eq ne ninj show ?thesis
    by blast
qed

section \<open>Determinism\<close>

lemma reset_const: "reset st = reset st'"
  by (cases st, cases st') (simp add: reset_def)

text \<open>
  C6. \<open>compile\<close> resets the instance first, so its whole result (the compiled system
  with its code and dependencies, or the error) is the same whatever state an earlier
  call left the instance in: compiling a script twice, on one instance or on two,
  gives identical code and dependencies.
\<close>

theorem compile_deterministic:
  "compile depth script st = compile depth script st'"
  unfolding compile_def by (simp only: reset_const[of st st'])

section \<open>Compilation returns\<close>

text \<open>
  The compiler of a branch or loop node calls \<open>compileNode\<close> on the targets of its block,
  so a run of \<open>compile\<close> is as deep as the nesting of the blocks. When the nesting
  relation of a well-formed script has no cycle, \<open>compile\<close> returns at every depth of the
  call stack from some depth on.
\<close>

lemma indentLevel_simps [simp]:
  "indentLevel (indent st) = indentLevel st + 1"
  "indentLevel (dedent st) = indentLevel st - 1"
  "indentLevel (setOutput k v st) = indentLevel st"
  by (simp_all add: indent_def dedent_def setOutput_def)

lemma writeLine_returns:
  "0 \<le> indentLevel st \<Longrightarrow>
   \<exists>st'. writeLine line st = Inr st' \<and> indentLevel st' = indentLevel st"
  by (simp add: writeLine_def)

lemma leaf_returns:
  assumes "0 \<le> indentLevel st"
  shows "\<exists>st'. compileUpdateEvent node st = Inr st' \<and> indentLevel st \<le> indentLevel st'"
    and "\<exists>st'. compileCollisionEvent node st = Inr st' \<and> indentLevel st \<le> indentLevel st'"
    and "\<exists>st'. compileGetEntities node st = Inr st' \<and> indentLevel st \<le> indentLevel st'"
    and "\<exists>st'. compileGetComponent node cm st = Inr st' \<and> indentLevel st \<le> indentLevel st'"
    and "\<exists>st'. compileSetComponent node cm st = Inr st' \<and> indentLevel st \<le> indentLevel st'"
    and "\<exists>st'. compileMathOperation node cm op st = Inr st' \<and> indentLevel st \<le> indentLevel st'"
  using assms
  by (simp_all add: compileUpdateEvent_def compileCollisionEvent_def compileGetEntities_def
        compileGetComponent_def compileSetComponent_def compileMathOperation_def
        Let_def writeLine_def)

lemma compileTargets_returns:
  assumes "\<forall>t\<in>set (List.map_filter (\<lambda>c. map_of nm (target c)) conns). returnsAt self cm nm t"
      and "0 \<le> indentLevel st"
  shows "\<exists>st'. compileTargets self conns cm nm st = Inr st' \<and> indentLevel st \<le> indentLevel st'"
  using assms
proof (induction conns arbitrary: st)
  case Nil
  then show ?case by simp
next
  case (Cons conn conns)
  show ?case
  proof (cases "map_of nm (target conn)")
    case None
    with Cons.prems have "\<forall>t\<in>set (List.map_filter (\<lambda>c. map_of nm (target c)) conns).
        returnsAt self cm nm t"
      by (simp add: map_filter_simps)
    from Cons.IH[OF this Cons.prems(2)] None show ?thesis by simp
  next
    case (Some t)
    with Cons.prems(1) have rt: "returnsAt self cm nm t"
      and rest: "\<forall>t\<in>set (List.map_filter (\<lambda>c. map_of nm (target c)) conns).
        returnsAt self cm nm t"
      by (simp_all add: map_filter_simps)
    from rt Cons.prems(2) obtain m where
      m: "self t cm nm st = Inr m" "indentLevel st \<le> indentLevel m"
      by (auto simp: returnsAt_def)
    with Cons.prems(2) have "0 \<le> indentLevel m" by simp
    from Cons.IH[OF rest this] obtain st' where
      "compileTargets self conns cm nm m = Inr st'" "indentLevel m \<le> indentLevel st'"
      by blast
    with m Some show ?thesis by auto
  qed
qed

lemma map_filter_append: "List.map_filter f (xs @ ys) = List.map_filter f xs @ List.map_filter f ys"
  by (simp add: List.map_filter_def)

lemma compileIfStatement_returns:
  assumes ty: "node_type node = ''flow/if''"
      and sub: "\<forall>t\<in>set (blockTargets cm nm node). returnsAt self cm nm t"
      and lvl: "0 \<le> indentLevel st"
  shows "\<exists>st'. compileIfStatement self node cm nm st = Inr st' \<and> indentLevel st \<le> indentLevel st'"
proof -
  let ?thenConns = "connectionsAt cm (node_id node @ ''_then'')"
  let ?elseConns = "connectionsAt cm (node_id node @ ''_else'')"
  have bc: "blockTargets cm nm node
      = List.map_filter (\<lambda>c. map_of nm (target c)) ?thenConns
        @ List.map_filter (\<lambda>c. map_of nm (target c)) ?elseConns"
    unfolding blockTargets_def map_filter_append[symmetric] using ty by simp
  from sub have subT: "\<forall>t\<in>set (List.map_filter (\<lambda>c. map_of nm (target c)) ?thenConns).
      returnsAt self cm nm t"
    and subE: "\<forall>t\<in>set (List.map_filter (\<lambda>c. map_of nm (target c)) ?elseConns).
      returnsAt self cm nm t"
    unfolding bc by simp_all
  from writeLine_returns[OF lvl] obtain h1 where
    h1: "writeLine (''if '' @ orElse (getInputValue st (node_id node) ''condition'' cm) ''false''
           @ '' {'') st = Inr h1" "indentLevel h1 = indentLevel st"
    by blast
  from h1(2) lvl have "0 \<le> indentLevel (indent h1)" by simp
  from compileTargets_returns[OF subT this] obtain h2 where
    h2: "compileTargets self ?thenConns cm nm (indent h1) = Inr h2"
      "indentLevel (indent h1) \<le> indentLevel h2"
    by blast
  from h2(2) h1(2) have l2: "indentLevel st \<le> indentLevel (dedent h2)" by simp
  have "\<exists>h3. (if ?elseConns \<noteq> [] then
              andThen (writeLine ''} else {'' (dedent h2))
                (\<lambda>st. andThen (compileTargets self ?elseConns cm nm (indent st))
                (\<lambda>st. Inr (dedent st)))
            else Inr (dedent h2)) = Inr h3 \<and> indentLevel st \<le> indentLevel h3"
  proof (cases "?elseConns \<noteq> []")
    case False
    with l2 show ?thesis by simp
  next
    case True
    from l2 lvl have "0 \<le> indentLevel (dedent h2)" by simp
    from writeLine_returns[OF this] obtain e1 where
      e1: "writeLine ''} else {'' (dedent h2) = Inr e1" "indentLevel e1 = indentLevel (dedent h2)"
      by blast
    from e1(2) l2 lvl have "0 \<le> indentLevel (indent e1)" by simp
    from compileTargets_returns[OF subE this] obtain e2 where
      e2: "compileTargets self ?elseConns cm nm (indent e1) = Inr e2"
        "indentLevel (indent e1) \<le> indentLevel e2"
      by blast
    from e2(2) e1(2) l2 have "indentLevel st \<le> indentLevel (dedent e2)" by simp
    with True e1(1) e2(1) show ?thesis by simp
  qed
  then obtain h3 where
    h3: "(if ?elseConns \<noteq> [] then
              andThen (writeLine ''} else {'' (dedent h2))
                (\<lambda>st. andThen (compileTargets self ?elseConns cm nm (indent st))
                (\<lambda>st. Inr (dedent st)))
            else Inr (dedent h2)) = Inr h3" "indentLevel st \<le> indentLevel h3"
    by blast
  from h3(2) lvl have "0 \<le> indentLevel h3" by simp
  from writeLine_returns[OF this] obtain st' where
    st': "writeLine ''}'' h3 = Inr st'" "indentLevel st' = indentLevel h3"
    by blast
  have "compileIfStatement self node cm nm st = Inr st'"
    unfolding compileIfStatement_def Let_def
    by (simp only: h1(1) andThen_Inr h2(1) h3(1) st'(1))
  with st'(2) h3(2) show ?thesis by simp
qed

lemma compileForEach_returns:
  assumes ty: "node_type node = ''flow/foreach''"
      and sub: "\<forall>t\<in>set (blockTargets cm nm node). returnsAt self cm nm t"
      and lvl: "0 \<le> indentLevel st"
  shows "\<exists>st'. compileForEach self node cm nm st = Inr st' \<and> indentLevel st \<le> indentLevel st'"
proof -
  let ?bodyConns = "connectionsAt cm (node_id node @ ''_body'')"
  let ?itemVar = "''item_'' @ sanitizeId (node_id node)"
  have bc: "blockTargets cm nm node = List.map_filter (\<lambda>c. map_of nm (target c)) ?bodyConns"
    unfolding blockTargets_def using ty by simp
  from sub have subB: "\<forall>t\<in>set (List.map_filter (\<lambda>c. map_of nm (target c)) ?bodyConns).
      returnsAt self cm nm t"
    unfolding bc .
  from writeLine_returns[OF lvl] obtain h1 where
    h1: "writeLine (''for '' @ ?itemVar @ '' in ''
          @ showNull (getInputValue st (node_id node) ''array'' cm) @ ''.iter() {'') st = Inr h1"
      "indentLevel h1 = indentLevel st"
    by blast
  from h1(2) lvl have "0 \<le> indentLevel (setOutput (node_id node @ ''_item'') ?itemVar (indent h1))"
    by simp
  from compileTargets_returns[OF subB this] obtain h2 where
    h2: "compileTargets self ?bodyConns cm nm
           (setOutput (node_id node @ ''_item'') ?itemVar (indent h1)) = Inr h2"
      "indentLevel (setOutput (node_id node @ ''_item'') ?itemVar (indent h1)) \<le> indentLevel h2"
    by blast
  from h2(2) h1(2) have l2: "indentLevel st \<le> indentLevel (dedent h2)" by simp
  with lvl have "0 \<le> indentLevel (dedent h2)" by simp
  from writeLine_returns[OF this] obtain st' where
    st': "writeLine ''}'' (dedent h2) = Inr st'" "indentLevel st' = indentLevel (dedent h2)"
    by blast
  have "compileForEach self node cm nm st = Inr st'"
    unfolding compileForEach_def Let_def
    by (simp only: h1(1) andThen_Inr h2(1) st'(1))
  with st'(2) l2 show ?thesis by simp
qed

lemma dispatch_returns:
  assumes sub: "\<forall>t\<in>set (blockTargets cm nm node). returnsAt self cm nm t"
      and lvl: "0 \<le> indentLevel st"
  shows "\<exists>st'. dispatch self node cm nm st = Inr st' \<and> indentLevel st \<le> indentLevel st'"
proof -
  consider (ifn) "node_type node = ''flow/if''" | (each) "node_type node = ''flow/foreach''"
    | (leaf) "node_type node \<noteq> ''flow/if''" "node_type node \<noteq> ''flow/foreach''"
    by blast
  then show ?thesis
  proof cases
    case ifn
    with compileIfStatement_returns[OF ifn sub lvl] show ?thesis
      by (simp add: dispatch_def)
  next
    case each
    with compileForEach_returns[OF each sub lvl] show ?thesis
      by (simp add: dispatch_def)
  next
    case leaf
    let ?alts = "{compileUpdateEvent node st, compileCollisionEvent node st,
        compileGetEntities node st, compileGetComponent node cm st,
        compileSetComponent node cm st, compileMathOperation node cm ''+'' st,
        compileMathOperation node cm ''*'' st,
        writeLine (''// TODO: Implement node type '' @ node_type node) st}"
    have "dispatch self node cm nm st \<in> ?alts"
      unfolding dispatch_def using leaf by simp
    moreover have "\<forall>r\<in>?alts. \<exists>st'. r = Inr st' \<and> indentLevel st \<le> indentLevel st'"
      using leaf_returns[OF lvl, of node] leaf_returns(4-6)[OF lvl, of node cm]
        writeLine_returns[OF lvl, of "''// TODO: Implement node type '' @ node_type node"]
      by (simp only: ball_simps bex_simps insert_iff empty_iff) (metis order_refl)
    ultimately show ?thesis by blast
  qed
qed

lemma compileNode_Suc_returns:
  assumes sub: "\<forall>t\<in>set (blockTargets cm nm node). returnsAt (compileNode d) cm nm t"
  shows "returnsAt (compileNode (Suc d)) cm nm node"
  unfolding returnsAt_def
proof (intro allI impI)
  fix st :: compiler
  assume lvl: "0 \<le> indentLevel st"
  from writeLine_returns[OF lvl] obtain h1 where
    h1: "writeLine (''// Node: '' @ orElse (label (node_data node)) (node_type node)) st = Inr h1"
      "indentLevel h1 = indentLevel st"
    by blast
  with lvl have "0 \<le> indentLevel h1" by simp
  from dispatch_returns[OF sub this] obtain h2 where
    h2: "dispatch (compileNode d) node cm nm h1 = Inr h2" "indentLevel h1 \<le> indentLevel h2"
    by blast
  with h1(2) lvl have "0 \<le> indentLevel h2" by simp
  from writeLine_returns[OF this] obtain st' where
    st': "writeLine [] h2 = Inr st'" "indentLevel st' = indentLevel h2"
    by blast
  from h1 h2 st' show "\<exists>st'. compileNode (Suc d) node cm nm st = Inr st'
      \<and> indentLevel st \<le> indentLevel st'"
    by simp
qed

lemma set_update_subset: "set (AList.update k v al) \<subseteq> insert (k, v) (set al)"
  by (induction al) auto

lemma mkNodeMap_values: "map_of (mkNodeMap ns) k = Some t \<Longrightarrow> t \<in> set ns"
proof -
  have "snd ` set (foldl (\<lambda>m n. AList.update (node_id n) n m) m0 ns) \<subseteq> snd ` set m0 \<union> set ns"
    for m0
  proof (induction ns arbitrary: m0)
    case Nil
    show ?case by simp
  next
    case (Cons n ns)
    have "snd ` set (AList.update (node_id n) n m0) \<subseteq> insert n (snd ` set m0)"
      using set_update_subset[of "node_id n" n m0] by force
    with Cons[of "AList.update (node_id n) n m0"] show ?case by auto
  qed
  from this[of "[]"] have "snd ` set (mkNodeMap ns) \<subseteq> set ns"
    by (simp add: mkNodeMap_def)
  moreover assume "map_of (mkNodeMap ns) k = Some t"
  then have "t \<in> snd ` set (mkNodeMap ns)"
    by (force dest: map_of_SomeD)
  ultimately show ?thesis by blast
qed

lemma blockTargets_nodes:
  "t \<in> set (blockTargets cm (mkNodeMap ns) n) \<Longrightarrow> t \<in> set ns"
  by (auto simp: blockTargets_def List.map_filter_def dest: mkNodeMap_values split: if_splits)

lemma uniform_depth:
  assumes "\<forall>x\<in>set xs. \<exists>d0. \<forall>d\<ge>d0. P (d::nat) x"
  shows "\<exists>D. \<forall>x\<in>set xs. \<forall>d\<ge>D. P d x"
  using assms
proof (induction xs)
  case Nil
  show ?case by simp
next
  case (Cons x xs)
  then obtain D where D: "\<forall>y\<in>set xs. \<forall>d\<ge>D. P d y" by auto
  from Cons.prems obtain d0 where d0: "\<forall>d\<ge>d0. P d x" by auto
  have "\<forall>y\<in>set (x # xs). \<forall>d\<ge>max D d0. P d y"
    using D d0 by auto
  then show ?case by blast
qed

lemma nodes_return:
  assumes wfr: "wf (nesting script)"
  shows "n \<in> set (nodes script) \<Longrightarrow>
     \<exists>d0. \<forall>d\<ge>d0. returnsAt (compileNode d) (buildConnectionMap (connections script))
                      (mkNodeMap (nodes script)) n"
proof (induction n rule: wf_induct_rule[OF wfr])
  case (1 n)
  let ?cm = "buildConnectionMap (connections script)"
  let ?nm = "mkNodeMap (nodes script)"
  have "\<forall>t\<in>set (blockTargets ?cm ?nm n). \<exists>d0. \<forall>d\<ge>d0. returnsAt (compileNode d) ?cm ?nm t"
  proof
    fix t assume t: "t \<in> set (blockTargets ?cm ?nm n)"
    with "1.prems" have "(t, n) \<in> nesting script" by (simp add: nesting_def)
    moreover from t have "t \<in> set (nodes script)" by (rule blockTargets_nodes)
    ultimately show "\<exists>d0. \<forall>d\<ge>d0. returnsAt (compileNode d) ?cm ?nm t" by (rule "1.IH")
  qed
  from uniform_depth[OF this] obtain D where
    D: "\<forall>t\<in>set (blockTargets ?cm ?nm n). \<forall>d\<ge>D. returnsAt (compileNode d) ?cm ?nm t"
    by blast
  have "\<forall>d\<ge>Suc D. returnsAt (compileNode d) ?cm ?nm n"
  proof (intro allI impI)
    fix d assume "Suc D \<le> d"
    then obtain d' where d': "d = Suc d'" "D \<le> d'" by (cases d) auto
    with D have "\<forall>t\<in>set (blockTargets ?cm ?nm n). returnsAt (compileNode d') ?cm ?nm t" by blast
    from compileNode_Suc_returns[OF this] d'(1) show "returnsAt (compileNode d) ?cm ?nm n" by simp
  qed
  then show ?case by blast
qed

lemma compileNodes_returns:
  assumes "\<forall>n\<in>set ns. returnsAt (compileNode d) cm nm n" and "0 \<le> indentLevel st"
  shows "\<exists>st'. compileNodes d ns cm nm st = Inr st' \<and> indentLevel st \<le> indentLevel st'"
  using assms
proof (induction ns arbitrary: st)
  case Nil
  then show ?case by simp
next
  case (Cons n ns)
  from Cons.prems obtain m where
    m: "compileNode d n cm nm st = Inr m" "indentLevel st \<le> indentLevel m"
    by (auto simp: returnsAt_def)
  with Cons.prems(2) have "0 \<le> indentLevel m" by simp
  with Cons.IH[of m] Cons.prems(1) obtain st' where
    "compileNodes d ns cm nm m = Inr st'" "indentLevel m \<le> indentLevel st'"
    by auto
  with m show ?case by auto
qed

lemma finite_nesting: "finite (nesting script)"
proof -
  have "nesting script \<subseteq> set (nodes script) \<times> set (nodes script)"
    by (auto simp: nesting_def dest: blockTargets_nodes)
  then show ?thesis by (rule finite_subset) simp
qed

text \<open>
  \<open>compile\<close> returns a compiled system for a well-formed script whose nesting relation
  has no cycle, once the call stack admits enough nested calls.
\<close>

lemma compile_returns:
  assumes wf: "wellFormed script" and ac: "acyclic (nesting script)"
  shows "\<exists>depth0. \<forall>depth\<ge>depth0. \<exists>sys st. compile depth script st0 = Inr (sys, st)"
proof -
  let ?cm = "buildConnectionMap (connections script)"
  let ?nm = "mkNodeMap (nodes script)"
  from finite_nesting ac have wfr: "wf (nesting script)" by (rule finite_acyclic_wf)
  from wellFormed_sort[OF wf] obtain sortedNodes degF where
    ts: "topologicalSort (nodes script) (connections script) = Inr sortedNodes"
    and inv: "kahnInv (nodes script) (connections script) degF [] sortedNodes"
    by blast
  from inv have sub: "set sortedNodes \<subseteq> set (nodes script)" by (simp add: kahnInv_def)
  have "\<forall>n\<in>set sortedNodes. \<exists>d0. \<forall>d\<ge>d0. returnsAt (compileNode d) ?cm ?nm n"
    using nodes_return[OF wfr] sub by blast
  from uniform_depth[OF this] obtain D where
    D: "\<forall>n\<in>set sortedNodes. \<forall>d\<ge>D. returnsAt (compileNode d) ?cm ?nm n"
    by blast
  have "\<exists>sys st. compile depth script st0 = Inr (sys, st)" if "D \<le> depth" for depth
  proof -
    have l0: "0 \<le> indentLevel (reset st0)" by (simp add: reset_def)
    from writeLine_returns[OF l0] obtain s1 where
      s1: "writeLine (''pub struct '' @ toRustName (script_name script) @ ''System {'') (reset st0)
           = Inr s1" "indentLevel s1 = indentLevel (reset st0)"
      by blast
    then have l1: "indentLevel s1 = 0" by (simp add: reset_def)
    then have "0 \<le> indentLevel (indent s1)" by simp
    from writeLine_returns[OF this] obtain s2 where
      s2: "writeLine ''// System state'' (indent s1) = Inr s2" "indentLevel s2 = indentLevel (indent s1)"
      by blast
    with l1 have "0 \<le> indentLevel (dedent s2)" by simp
    from writeLine_returns[OF this] obtain s3 where
      s3: "writeLine ''}'' (dedent s2) = Inr s3" "indentLevel s3 = indentLevel (dedent s2)"
      by blast
    with s2(2) l1 have l3: "indentLevel s3 = 0" by simp
    then have "0 \<le> indentLevel s3" by simp
    from writeLine_returns[OF this] obtain s4 where
      s4: "writeLine [] s3 = Inr s4" "indentLevel s4 = indentLevel s3"
      by blast
    with l3 have "0 \<le> indentLevel s4" by simp
    from writeLine_returns[OF this] obtain s5 where
      s5: "writeLine (''impl System for '' @ toRustName (script_name script) @ ''System {'') s4
           = Inr s5" "indentLevel s5 = indentLevel s4"
      by blast
    with s4(2) l3 have "0 \<le> indentLevel (indent s5)" by simp
    from writeLine_returns[OF this] obtain s6 where
      s6: "writeLine ''fn execute(&mut self, world: &mut World, physics: &mut PhysicsWorld, dt: f32) {''
             (indent s5) = Inr s6" "indentLevel s6 = indentLevel (indent s5)"
      by blast
    with s5(2) s4(2) l3 have l6: "indentLevel (indent s6) = 2" by simp
    then have l6': "0 \<le> indentLevel (indent s6)" by simp
    from D that have "\<forall>n\<in>set sortedNodes. returnsAt (compileNode depth) ?cm ?nm n" by blast
    from compileNodes_returns[OF this l6'] obtain s7 where
      s7: "compileNodes depth sortedNodes ?cm ?nm (indent s6) = Inr s7"
        "indentLevel (indent s6) \<le> indentLevel s7"
      by blast
    with l6 have l7: "2 \<le> indentLevel s7" by simp
    then have "0 \<le> indentLevel (dedent s7)" by simp
    from writeLine_returns[OF this] obtain s8 where
      s8: "writeLine ''}'' (dedent s7) = Inr s8" "indentLevel s8 = indentLevel (dedent s7)"
      by blast
    with l7 have "0 \<le> indentLevel (dedent s8)" by simp
    from writeLine_returns[OF this] obtain s9 where
      s9: "writeLine ''}'' (dedent s8) = Inr s9"
      by blast
    show ?thesis
      unfolding compile_def Let_def
      by (simp only: ts s1(1) s2(1) s3(1) s4(1) s5(1) s6(1) s7(1) s8(1) s9 andThen_Inr) blast
  qed
  then show ?thesis by blast
qed

lemma nestedScript_blockTargets:
  "blockTargets (buildConnectionMap (connections nestedScript)) (mkNodeMap (nodes nestedScript))
     (plainNode ''I'' ''flow/if'') = [plainNode ''T'' ''math/add'']"
  "blockTargets (buildConnectionMap (connections nestedScript)) (mkNodeMap (nodes nestedScript))
     (plainNode ''T'' ''math/add'') = []"
  by code_simp+

lemma nestedScript_nesting: "acyclic (nesting nestedScript)"
proof -
  let ?I = "plainNode ''I'' ''flow/if''" and ?T = "plainNode ''T'' ''math/add''"
  have "nesting nestedScript \<subseteq> {(?T, ?I)}"
  proof
    fix p assume "p \<in> nesting nestedScript"
    then obtain t n where p: "p = (t, n)" and n: "n \<in> set (nodes nestedScript)"
      and t: "t \<in> set (blockTargets (buildConnectionMap (connections nestedScript))
                (mkNodeMap (nodes nestedScript)) n)"
      by (auto simp: nesting_def)
    from n have "n = ?I \<or> n = ?T" by (simp add: nestedScript_def)
    then show "p \<in> {(?T, ?I)}"
    proof
      assume nI: "n = ?I"
      from t[unfolded nI nestedScript_blockTargets] have "t = ?T" by simp
      with nI p show ?thesis by simp
    next
      assume nT: "n = ?T"
      from t[unfolded nT nestedScript_blockTargets] have False by simp
      then show ?thesis ..
    qed
  qed
  moreover have "acyclic {(?T, ?I)}"
    by (simp add: acyclic_empty_rel plainNode_def)
  ultimately show ?thesis by (rule acyclic_subset[rotated])
qed

section \<open>Emission order\<close>

lemma map_eq_split2:
  assumes "map f l = xs @ a # ys @ b # zs"
  shows "\<exists>xs' a' ys' b' zs'. l = xs' @ a' # ys' @ b' # zs' \<and> f a' = a \<and> f b' = b"
proof -
  from assms obtain xs' r1 where l1: "l = xs' @ r1" and r1: "map f r1 = a # ys @ b # zs"
    by (auto simp: map_eq_append_conv)
  from r1 obtain a' r2 where l2: "r1 = a' # r2" and a: "f a' = a" and r2: "map f r2 = ys @ b # zs"
    by (auto simp: map_eq_Cons_conv)
  from r2 obtain ys' r3 where l3: "r2 = ys' @ r3" and r3: "map f r3 = b # zs"
    by (auto simp: map_eq_append_conv)
  from r3 obtain b' zs' where l4: "r3 = b' # zs'" and b: "f b' = b"
    by (auto simp: map_eq_Cons_conv)
  from l1 l2 l3 l4 a b show ?thesis by blast
qed

text \<open>
  The order of the main pass, for a connection of a well-formed script whose
  connections form no cycle: when \<open>compile\<close> returns, the main pass has compiled the
  source once and the target once, the source first; \<open>linesA\<close> and \<open>linesB\<close> are the
  lines that these two calls of \<open>compileNode\<close> appended.
\<close>

lemma main_pass_order:
  assumes wf: "wellFormed script"
      and ac: "acyclic (edges (connections script))"
      and c: "c \<in> set (connections script)"
      and a: "a \<in> set (nodes script)" "node_id a = source c"
      and b: "b \<in> set (nodes script)" "node_id b = target c"
      and run: "compile depth script st0 = Inr (sys, st)"
  shows "\<exists>xs ys zs stepsX linesA stA stepsY linesB stB stepsZ closing.
     topologicalSort (nodes script) (connections script) = Inr (xs @ a # ys @ b # zs) \<and>
     a \<notin> set (xs @ ys @ zs) \<and> b \<notin> set (xs @ ys @ zs) \<and> a \<noteq> b \<and>
     compiledInTurn (compileNode depth) (xs @ a # ys @ b # zs)
       (buildConnectionMap (connections script)) (mkNodeMap (nodes script))
       \<lparr>indentLevel = 2,
        outputLines =
          [''pub struct '' @ toRustName (script_name script) @ ''System {'',
           ''    // System state'', ''}'', [],
           ''impl System for '' @ toRustName (script_name script) @ ''System {'',
           ''    fn execute(&mut self, world: &mut World, physics: &mut PhysicsWorld, dt: f32) {''],
        nodeOutputs = []\<rparr>
       (stepsX @ (linesA, stA) # stepsY @ (linesB, stB) # stepsZ) \<and>
     length stepsX = length xs \<and> length stepsY = length ys \<and>
     linesA \<noteq> [] \<and> linesB \<noteq> [] \<and>
     outputLines st =
       [''pub struct '' @ toRustName (script_name script) @ ''System {'',
        ''    // System state'', ''}'', [],
        ''impl System for '' @ toRustName (script_name script) @ ''System {'',
        ''    fn execute(&mut self, world: &mut World, physics: &mut PhysicsWorld, dt: f32) {'']
       @ concat (map fst stepsX) @ linesA @ concat (map fst stepsY) @ linesB
       @ concat (map fst stepsZ) @ closing \<and>
     length closing = 2"
proof -
  let ?cm = "buildConnectionMap (connections script)"
  let ?nm = "mkNodeMap (nodes script)"
  let ?hdr = "[''pub struct '' @ toRustName (script_name script) @ ''System {'',
           ''    // System state'', ''}'', [],
           ''impl System for '' @ toRustName (script_name script) @ ''System {'',
           ''    fn execute(&mut self, world: &mut World, physics: &mut PhysicsWorld, dt: f32) {'']"
  let ?s0 = "\<lparr>indentLevel = 2, outputLines = ?hdr, nodeOutputs = []\<rparr>"
  from wf have dist: "distinct (map node_id (nodes script))"
    and ends: "\<forall>c\<in>set (connections script).
      source c \<in> node_id ` set (nodes script) \<and> target c \<in> node_id ` set (nodes script)"
    by (simp_all add: wellFormed_def)
  from dist have inj: "inj_on node_id (set (nodes script))"
    by (simp add: distinct_map)
  from wellFormed_sort[OF wf] obtain sortedNodes degF where
    ts: "topologicalSort (nodes script) (connections script) = Inr sortedNodes"
    and inv: "kahnInv (nodes script) (connections script) degF [] sortedNodes"
    by blast
  from kahn_complete[OF inv ends ac] ends c
  have "target c \<in> set (map node_id sortedNodes)" by auto
  moreover from inv have "topoOrdered (connections script) (map node_id sortedNodes)"
    and sub: "set sortedNodes \<subseteq> set (nodes script)"
    by (simp_all add: kahnInv_def)
  ultimately obtain i1 j1 k1 where "map node_id sortedNodes = i1 @ source c # j1 @ target c # k1"
    using topoOrdered_split[OF _ c] by blast
  from map_eq_split2[OF this] obtain xs a' ys b' zs where
    split': "sortedNodes = xs @ a' # ys @ b' # zs" and a': "node_id a' = source c"
    and b': "node_id b' = target c"
    by blast
  from sub split' have am: "a' \<in> set (nodes script)" and bm: "b' \<in> set (nodes script)" by auto
  from a(2) a' have "node_id a' = node_id a" by simp
  from inj_onD[OF inj this am a(1)] have "a' = a" .
  moreover from b(2) b' have "node_id b' = node_id b" by simp
  from inj_onD[OF inj this bm b(1)] have "b' = b" .
  ultimately have split: "sortedNodes = xs @ a # ys @ b # zs" using split' by simp
  from kahn_exact(2)[OF inv dist ends] have "distinct (xs @ a # ys @ b # zs)"
    by (simp only: split)
  then have once: "a \<notin> set (xs @ ys @ zs)" "b \<notin> set (xs @ ys @ zs)" "a \<noteq> b"
    by auto
  from compile_Inr_steps[OF run ts] obtain steps and stOut :: compiler where
    steps: "compiledInTurn (compileNode depth) sortedNodes ?cm ?nm ?s0 steps"
    and st: "st = \<lparr>indentLevel = indentLevel stOut - 2,
           outputLines = ?hdr @ concat (map fst steps)
             @ [repeatStr ''    '' (indentLevel stOut - 1) @ ''}'',
                repeatStr ''    '' (indentLevel stOut - 2) @ ''}''],
           nodeOutputs = nodeOutputs stOut\<rparr>"
    by (elim exE conjE) (rule that; assumption)
  from steps[unfolded split compiledInTurn_append] obtain stepsX r1 where
    s1: "steps = stepsX @ r1" and x: "compiledInTurn (compileNode depth) xs ?cm ?nm ?s0 stepsX"
    and r1: "compiledInTurn (compileNode depth) (a # ys @ b # zs) ?cm ?nm
               (last (?s0 # map snd stepsX)) r1"
    by blast
  from r1 obtain linesA stA r2 where
    s2: "r1 = (linesA, stA) # r2"
    and ra: "compileNode depth a ?cm ?nm (last (?s0 # map snd stepsX)) = Inr stA"
    and la: "outputLines stA = outputLines (last (?s0 # map snd stepsX)) @ linesA"
    and r2: "compiledInTurn (compileNode depth) (ys @ b # zs) ?cm ?nm stA r2"
    by (auto split: list.splits)
  from r2[unfolded compiledInTurn_append] obtain stepsY r3 where
    s3: "r2 = stepsY @ r3" and y: "compiledInTurn (compileNode depth) ys ?cm ?nm stA stepsY"
    and r3: "compiledInTurn (compileNode depth) (b # zs) ?cm ?nm (last (stA # map snd stepsY)) r3"
    by blast
  from r3 obtain linesB stB stepsZ where
    s4: "r3 = (linesB, stB) # stepsZ"
    and rb: "compileNode depth b ?cm ?nm (last (stA # map snd stepsY)) = Inr stB"
    and lb: "outputLines stB = outputLines (last (stA # map snd stepsY)) @ linesB"
    by (auto split: list.splits)
  from s1 s2 s3 s4 have all: "steps = stepsX @ (linesA, stA) # stepsY @ (linesB, stB) # stepsZ"
    by simp
  from compileNode_emits_header[OF ra] la have neA: "linesA \<noteq> []" by auto
  from compileNode_emits_header[OF rb] lb have neB: "linesB \<noteq> []" by auto
  let ?closing = "[repeatStr ''    '' (indentLevel stOut - 1) @ ''}'',
                repeatStr ''    '' (indentLevel stOut - 2) @ ''}'']"
  from st all have out: "outputLines st = ?hdr @ concat (map fst stepsX) @ linesA
       @ concat (map fst stepsY) @ linesB @ concat (map fst stepsZ) @ ?closing"
    by simp
  have len: "length ?closing = 2" by simp
  from ts[unfolded split] once steps[unfolded split all]
    compiledInTurn_length[OF x] compiledInTurn_length[OF y] neA neB out len
  show ?thesis
    by (intro exI[of _ xs] exI[of _ ys] exI[of _ zs] exI[of _ stepsX] exI[of _ linesA]
          exI[of _ stA] exI[of _ stepsY] exI[of _ linesB] exI[of _ stB] exI[of _ stepsZ]
          exI[of _ ?closing] conjI)
qed

lemma compileTargets_cong:
  assumes "\<forall>t\<in>set (List.map_filter (\<lambda>c. map_of nm (target c)) conns). self t cm nm = self' t cm nm"
  shows "compileTargets self conns cm nm st = compileTargets self' conns cm nm st"
  using assms
proof (induction conns arbitrary: st)
  case Nil
  then show ?case by simp
next
  case (Cons conn conns)
  show ?case
  proof (cases "map_of nm (target conn)")
    case None
    with Cons.prems
    have "\<forall>t\<in>set (List.map_filter (\<lambda>c. map_of nm (target c)) conns). self t cm nm = self' t cm nm"
      by (simp add: List.map_filter_simps)
    from Cons.IH[OF this] None show ?thesis by simp
  next
    case (Some t)
    with Cons.prems have t: "self t cm nm = self' t cm nm"
      and rest: "\<forall>t\<in>set (List.map_filter (\<lambda>c. map_of nm (target c)) conns).
                  self t cm nm = self' t cm nm"
      by (simp_all add: List.map_filter_simps)
    have "compileTargets self conns cm nm = compileTargets self' conns cm nm"
      by (rule ext) (rule Cons.IH[OF rest])
    with t Some show ?thesis by simp
  qed
qed

text \<open>
  The compiler of a node calls \<open>compileNode\<close> on the targets of its block and on no other
  node: it is the same for two node compilers \<open>self\<close> that agree on these targets.
\<close>

lemma dispatch_calls_block_targets:
  assumes "\<forall>t\<in>set (blockTargets cm nm node). self t cm nm = self' t cm nm"
  shows "dispatch self node cm nm st = dispatch self' node cm nm st"
proof -
  have "compileIfStatement self node cm nm st = compileIfStatement self' node cm nm st"
    if ty: "node_type node = ''flow/if''"
  proof -
    let ?f = "\<lambda>c. map_of nm (target c)"
    from assms ty
    have "\<forall>t\<in>set (List.map_filter ?f (connectionsAt cm (node_id node @ ''_then''))
                  @ List.map_filter ?f (connectionsAt cm (node_id node @ ''_else''))).
            self t cm nm = self' t cm nm"
      unfolding blockTargets_def map_filter_append[symmetric] by simp
    then have a: "\<forall>t\<in>set (List.map_filter ?f (connectionsAt cm (node_id node @ ''_then''))).
            self t cm nm = self' t cm nm"
      and b: "\<forall>t\<in>set (List.map_filter ?f (connectionsAt cm (node_id node @ ''_else''))).
            self t cm nm = self' t cm nm"
      by simp_all
    from a have ta: "\<And>s. compileTargets self (connectionsAt cm (node_id node @ ''_then'')) cm nm s
                   = compileTargets self' (connectionsAt cm (node_id node @ ''_then'')) cm nm s"
      by (rule compileTargets_cong)
    from b have tb: "\<And>s. compileTargets self (connectionsAt cm (node_id node @ ''_else'')) cm nm s
                   = compileTargets self' (connectionsAt cm (node_id node @ ''_else'')) cm nm s"
      by (rule compileTargets_cong)
    show ?thesis
      unfolding compileIfStatement_def by (simp only: ta tb)
  qed
  moreover have "compileForEach self node cm nm st = compileForEach self' node cm nm st"
    if ty: "node_type node = ''flow/foreach''"
  proof -
    from assms ty
    have a: "\<forall>t\<in>set (List.map_filter (\<lambda>c. map_of nm (target c))
                         (connectionsAt cm (node_id node @ ''_body''))).
            self t cm nm = self' t cm nm"
      unfolding blockTargets_def by simp
    from a have ta: "\<And>s. compileTargets self (connectionsAt cm (node_id node @ ''_body'')) cm nm s
                   = compileTargets self' (connectionsAt cm (node_id node @ ''_body'')) cm nm s"
      by (rule compileTargets_cong)
    show ?thesis
      unfolding compileForEach_def by (simp only: ta)
  qed
  ultimately show ?thesis by (simp add: dispatch_def)
qed

text \<open>
  A node that is a block target of no node of the script is compiled by no compiler of
  a node: the compiler of every node is the same whatever \<open>self\<close> does on that node.
\<close>

lemma never_compiled_in_block:
  assumes top: "t \<notin> Domain (nesting script)"
      and n: "n \<in> set (nodes script)"
      and agree: "\<forall>u. u \<noteq> t \<longrightarrow>
        self u (buildConnectionMap (connections script)) (mkNodeMap (nodes script))
        = self' u (buildConnectionMap (connections script)) (mkNodeMap (nodes script))"
  shows "dispatch self n (buildConnectionMap (connections script)) (mkNodeMap (nodes script)) s
         = dispatch self' n (buildConnectionMap (connections script)) (mkNodeMap (nodes script)) s"
proof (rule dispatch_calls_block_targets, rule ballI)
  let ?cm = "buildConnectionMap (connections script)"
  let ?nm = "mkNodeMap (nodes script)"
  fix u assume "u \<in> set (blockTargets ?cm ?nm n)"
  with n have "(u, n) \<in> nesting script" by (simp add: nesting_def)
  then have "u \<in> Domain (nesting script)" by (rule DomainI)
  with top have "u \<noteq> t" by blast
  with agree show "self u ?cm ?nm = self' u ?cm ?nm" by blast
qed

lemma collideScript_compile:
  "compile 2 collideScript newCompiler =
     Inr (\<lparr>sys_name = ''collide'',
            code = join [CHR 0x0A]
              [''pub struct CollideSystem {'', ''    // System state'', ''}'', [],
               ''impl System for CollideSystem {'',
               ''    fn execute(&mut self, world: &mut World, physics: &mut PhysicsWorld, dt: f32) {'',
               ''        // Node: flow/if'', ''        if false {'',
               ''            // Node: math/add'', ''            let result_B = 0.0 + 0.0;'',
               ''            '', ''        }'', ''        '',
               ''        // Node: math/add'', ''        let result_a = 0.0 + 0.0;'', ''        '',
               ''        // Node: math/add'', ''        let result_A = 0.0 + 0.0;'', ''        '',
               ''        // Node: math/add'', ''        let result_B = result_a + result_A;'',
               ''        '', ''    }'', ''}''],
            dependencies = []\<rparr>,
          \<lparr>indentLevel = 0,
            outputLines =
              [''pub struct CollideSystem {'', ''    // System state'', ''}'', [],
               ''impl System for CollideSystem {'',
               ''    fn execute(&mut self, world: &mut World, physics: &mut PhysicsWorld, dt: f32) {'',
               ''        // Node: flow/if'', ''        if false {'',
               ''            // Node: math/add'', ''            let result_B = 0.0 + 0.0;'',
               ''            '', ''        }'', ''        '',
               ''        // Node: math/add'', ''        let result_a = 0.0 + 0.0;'', ''        '',
               ''        // Node: math/add'', ''        let result_A = 0.0 + 0.0;'', ''        '',
               ''        // Node: math/add'', ''        let result_B = result_a + result_A;'',
               ''        '', ''    }'', ''}''],
            nodeOutputs = [(''B'', ''result_B''), (''a'', ''result_a''), (''A'', ''result_A'')]\<rparr>)"
  by code_simp

lemma collideScript_acyclic: "acyclic (edges (connections collideScript))"
proof (rule acyclic_sink[where b = "''B''"])
  fix x y assume "(x, y) \<in> edges (connections collideScript)"
  then show "y = ''B'' \<and> x \<noteq> ''B''"
    by (auto simp: edges_def collideScript_def connection_def)
qed

text \<open>
  C5 fails on the code where the key of a connection is the key under which a branch
  or loop node looks up its block. The script below is well formed and its connections
  form no cycle. No connection leaves a \<open>then\<close>, \<open>else\<close> or \<open>body\<close> handle, and the
  \<open>flow/if\<close> node \<open>a_b\<close> has no connection at all, so that no node is nested in the
  subgraph of a branch or loop; a connection leads from \<open>A\<close> to \<open>B\<close>. The connection from
  \<open>a\<close> at its handle \<open>b_then\<close> has the key \<open>a_b_then\<close>, as a connection from \<open>a_b\<close> at its
  handle \<open>then\<close> would have: \<open>compile\<close> emits the binding of \<open>B\<close> inside the \<open>if\<close> block of
  \<open>a_b\<close>, before the lines of \<open>A\<close>, and once more after them. (The main pass itself
  keeps the order, by \<open>main_pass_order\<close>, and compiles in no block a node that is the
  target of none, by \<open>never_compiled_in_block\<close>.)
\<close>

theorem colliding_key_breaks_order:
  "distinct (map node_id (nodes collideScript)) \<and>
   set (map source (connections collideScript)) \<subseteq> set (map node_id (nodes collideScript)) \<and>
   set (map target (connections collideScript)) \<subseteq> set (map node_id (nodes collideScript)) \<and>
   acyclic (edges (connections collideScript)) \<and>
   connection ''c2'' ''A'' ''result'' ''B'' ''b'' \<in> set (connections collideScript) \<and>
   map (\<lambda>c. (source c, sourceHandle c)) (connections collideScript)
     = [(''a'', ''b_then''), (''A'', ''result'')] \<and>
   map connectionKey (connections collideScript) = [''a_b_then'', ''A_result''] \<and>
   compile 2 collideScript newCompiler =
     Inr (\<lparr>sys_name = ''collide'',
            code = join [CHR 0x0A]
              [''pub struct CollideSystem {'', ''    // System state'', ''}'', [],
               ''impl System for CollideSystem {'',
               ''    fn execute(&mut self, world: &mut World, physics: &mut PhysicsWorld, dt: f32) {'',
               ''        // Node: flow/if'', ''        if false {'',
               ''            // Node: math/add'', ''            let result_B = 0.0 + 0.0;'',
               ''            '', ''        }'', ''        '',
               ''        // Node: math/add'', ''        let result_a = 0.0 + 0.0;'', ''        '',
               ''        // Node: math/add'', ''        let result_A = 0.0 + 0.0;'', ''        '',
               ''        // Node: math/add'', ''        let result_B = result_a + result_A;'',
               ''        '', ''    }'', ''}''],
            dependencies = []\<rparr>,
          \<lparr>indentLevel = 0,
            outputLines =
              [''pub struct CollideSystem {'', ''    // System state'', ''}'', [],
               ''impl System for CollideSystem {'',
               ''    fn execute(&mut self, world: &mut World, physics: &mut PhysicsWorld, dt: f32) {'',
               ''        // Node: flow/if'', ''        if false {'',
               ''            // Node: math/add'', ''            let result_B = 0.0 + 0.0;'',
               ''            '', ''        }'', ''        '',
               ''        // Node: math/add'', ''        let result_a = 0.0 + 0.0;'', ''        '',
               ''        // Node: math/add'', ''        let result_A = 0.0 + 0.0;'', ''        '',
               ''        // Node: math/add'', ''        let result_B = result_a + result_A;'',
               ''        '', ''    }'', ''}''],
            nodeOutputs = [(''B'', ''result_B''), (''a'', ''result_a''), (''A'', ''result_A'')]\<rparr>)"
proof -
  have "distinct (map node_id (nodes collideScript))"
    and "set (map source (connections collideScript)) \<subseteq> set (map node_id (nodes collideScript))"
    and "set (map target (connections collideScript)) \<subseteq> set (map node_id (nodes collideScript))"
    and "connection ''c2'' ''A'' ''result'' ''B'' ''b'' \<in> set (connections collideScript)"
    and "map (\<lambda>c. (source c, sourceHandle c)) (connections collideScript)
           = [(''a'', ''b_then''), (''A'', ''result'')]"
    and "map connectionKey (connections collideScript) = [''a_b_then'', ''A_result'']"
    by (simp_all add: collideScript_def plainNode_def connection_def connectionKey_def)
  with collideScript_acyclic collideScript_compile show ?thesis by (intro conjI)
qed

section \<open>Cycles, dangling connections and collision events\<close>

lemma cycleScript_compile:
  "compile 1 cycleScript newCompiler =
     Inr (\<lparr>sys_name = ''cycle'',
            code = join [CHR 0x0A]
              [''pub struct CycleSystem {'', ''    // System state'', ''}'', [],
               ''impl System for CycleSystem {'',
               ''    fn execute(&mut self, world: &mut World, physics: &mut PhysicsWorld, dt: f32) {'',
               ''    }'', ''}''],
            dependencies = []\<rparr>,
          \<lparr>indentLevel = 0,
            outputLines =
              [''pub struct CycleSystem {'', ''    // System state'', ''}'', [],
               ''impl System for CycleSystem {'',
               ''    fn execute(&mut self, world: &mut World, physics: &mut PhysicsWorld, dt: f32) {'',
               ''    }'', ''}''],
            nodeOutputs = []\<rparr>)"
  by code_simp

lemma cycleScript_cycle: "(''A'', ''A'') \<in> (edges (connections cycleScript))\<^sup>+"
proof -
  have "(''A'', ''B'') \<in> edges (connections cycleScript)"
    and "(''B'', ''A'') \<in> edges (connections cycleScript)"
    by (simp_all add: edges_def cycleScript_def connection_def)
  then show ?thesis by (rule trancl_into_trancl2[OF _ r_into_trancl])
qed

lemma nestedScript_compile:
  "compile 2 nestedScript newCompiler =
     Inr (\<lparr>sys_name = ''nested'',
            code = join [CHR 0x0A]
              [''pub struct NestedSystem {'', ''    // System state'', ''}'', [],
               ''impl System for NestedSystem {'',
               ''    fn execute(&mut self, world: &mut World, physics: &mut PhysicsWorld, dt: f32) {'',
               ''        // Node: flow/if'', ''        if false {'',
               ''            // Node: math/add'', ''            let result_T = 0.0 + 0.0;'',
               ''            '', ''        }'', ''        '',
               ''        // Node: math/add'', ''        let result_T = 0.0 + 0.0;'', ''        '',
               ''    }'', ''}''],
            dependencies = []\<rparr>,
          \<lparr>indentLevel = 0,
            outputLines =
              [''pub struct NestedSystem {'', ''    // System state'', ''}'', [],
               ''impl System for NestedSystem {'',
               ''    fn execute(&mut self, world: &mut World, physics: &mut PhysicsWorld, dt: f32) {'',
               ''        // Node: flow/if'', ''        if false {'',
               ''            // Node: math/add'', ''            let result_T = 0.0 + 0.0;'',
               ''            '', ''        }'', ''        '',
               ''        // Node: math/add'', ''        let result_T = 0.0 + 0.0;'', ''        '',
               ''    }'', ''}''],
            nodeOutputs = [(''T'', ''result_T'')]\<rparr>)"
  by code_simp

lemma danglingTargetScript_compile:
  "compile 1 danglingTargetScript newCompiler =
     Inr (\<lparr>sys_name = ''dangling'',
            code = join [CHR 0x0A]
              [''pub struct DanglingSystem {'', ''    // System state'', ''}'', [],
               ''impl System for DanglingSystem {'',
               ''    fn execute(&mut self, world: &mut World, physics: &mut PhysicsWorld, dt: f32) {'',
               ''    }'', ''}''],
            dependencies = []\<rparr>,
          \<lparr>indentLevel = 0,
            outputLines =
              [''pub struct DanglingSystem {'', ''    // System state'', ''}'', [],
               ''impl System for DanglingSystem {'',
               ''    fn execute(&mut self, world: &mut World, physics: &mut PhysicsWorld, dt: f32) {'',
               ''    }'', ''}''],
            nodeOutputs = []\<rparr>)"
  by code_simp

lemma collisionScript_compile:
  "compile 1 collisionScript newCompiler =
     Inr (\<lparr>sys_name = ''collision'',
            code = join [CHR 0x0A]
              [''pub struct CollisionSystem {'', ''    // System state'', ''}'', [],
               ''impl System for CollisionSystem {'',
               ''    fn execute(&mut self, world: &mut World, physics: &mut PhysicsWorld, dt: f32) {'',
               ''        // Node: event/collision'',
               ''        for (entity_a, entity_b) in physics.get_collision_pairs() {'',
               ''            '', ''        }'', ''    }''],
            dependencies = []\<rparr>,
          \<lparr>indentLevel = 1,
            outputLines =
              [''pub struct CollisionSystem {'', ''    // System state'', ''}'', [],
               ''impl System for CollisionSystem {'',
               ''    fn execute(&mut self, world: &mut World, physics: &mut PhysicsWorld, dt: f32) {'',
               ''        // Node: event/collision'',
               ''        for (entity_a, entity_b) in physics.get_collision_pairs() {'',
               ''            '', ''        }'', ''    }''],
            nodeOutputs = [(''E_a'', ''entity_a''), (''E_b'', ''entity_b'')]\<rparr>)"
  by code_simp

text \<open>
  C1 fails on the code: the script of two nodes that each take the other's output has a
  dependency cycle, and \<open>compile\<close> raises nothing; it returns a compiled system whose
  code is the frame of the system alone, with neither node in it.
\<close>

theorem cycle_compiles_without_error:
  "(''A'', ''A'') \<in> (edges (connections cycleScript))\<^sup>+ \<and>
   (\<exists>sys st. compile 1 cycleScript newCompiler = Inr (sys, st) \<and>
      outputLines st =
        [''pub struct CycleSystem {'', ''    // System state'', ''}'', [],
         ''impl System for CycleSystem {'',
         ''    fn execute(&mut self, world: &mut World, physics: &mut PhysicsWorld, dt: f32) {'',
         ''    }'', ''}''] \<and>
      code sys = join [CHR 0x0A] (outputLines st))"
proof -
  have "\<exists>sys st. compile 1 cycleScript newCompiler = Inr (sys, st) \<and>
      outputLines st =
        [''pub struct CycleSystem {'', ''    // System state'', ''}'', [],
         ''impl System for CycleSystem {'',
         ''    fn execute(&mut self, world: &mut World, physics: &mut PhysicsWorld, dt: f32) {'',
         ''    }'', ''}''] \<and>
      code sys = join [CHR 0x0A] (outputLines st)"
    unfolding cycleScript_compile by simp
  with cycleScript_cycle show ?thesis by blast
qed

lemma cycleInBlockScript_wellFormed: "wellFormed cycleInBlockScript"
  by (simp add: wellFormed_def cycleInBlockScript_def plainNode_def connection_def)

lemma cycleInBlockScript_cycle:
  "(''A'', ''A'') \<in> (edges (connections cycleInBlockScript))\<^sup>+"
  "(''A'', ''B'') \<in> (edges (connections cycleInBlockScript))\<^sup>*"
proof -
  have ab: "(''A'', ''B'') \<in> edges (connections cycleInBlockScript)"
    and ba: "(''B'', ''A'') \<in> edges (connections cycleInBlockScript)"
    by (simp_all add: edges_def cycleInBlockScript_def connection_def)
  from ab ba show "(''A'', ''A'') \<in> (edges (connections cycleInBlockScript))\<^sup>+"
    by (rule trancl_into_trancl2[OF _ r_into_trancl])
  from ab show "(''A'', ''B'') \<in> (edges (connections cycleInBlockScript))\<^sup>*"
    by (rule r_into_rtrancl)
qed

lemma cycleInBlockScript_blockTargets:
  "blockTargets (buildConnectionMap (connections cycleInBlockScript)) (mkNodeMap (nodes cycleInBlockScript)) (plainNode ''I'' ''flow/if'') = [plainNode ''A'' ''math/add'']"
  "blockTargets (buildConnectionMap (connections cycleInBlockScript)) (mkNodeMap (nodes cycleInBlockScript)) (plainNode ''A'' ''math/add'') = []"
  "blockTargets (buildConnectionMap (connections cycleInBlockScript)) (mkNodeMap (nodes cycleInBlockScript)) (plainNode ''B'' ''math/add'') = []"
  by code_simp+

lemma cycleInBlockScript_nesting: "acyclic (nesting cycleInBlockScript)"
proof -
  let ?I = "plainNode ''I'' ''flow/if''" and ?A = "plainNode ''A'' ''math/add''" and ?B = "plainNode ''B'' ''math/add''"
  have "nesting cycleInBlockScript \<subseteq> {(?A, ?I)}"
  proof
    fix p assume "p \<in> nesting cycleInBlockScript"
    then obtain t n where p: "p = (t, n)" and n: "n \<in> set (nodes cycleInBlockScript)"
      and t: "t \<in> set (blockTargets (buildConnectionMap (connections cycleInBlockScript)) (mkNodeMap (nodes cycleInBlockScript)) n)"
      by (auto simp: nesting_def)
    from n have "n = ?I \<or> n = ?A \<or> n = ?B" by (simp add: cycleInBlockScript_def)
    then show "p \<in> {(?A, ?I)}"
    proof (elim disjE)
      assume nI: "n = ?I"
      from t[unfolded nI cycleInBlockScript_blockTargets] have "t = ?A" by simp
      with nI p show ?thesis by simp
    next
      assume nA: "n = ?A"
      from t[unfolded nA cycleInBlockScript_blockTargets] have False by simp
      then show ?thesis ..
    next
      assume nB: "n = ?B"
      from t[unfolded nB cycleInBlockScript_blockTargets] have False by simp
      then show ?thesis ..
    qed
  qed
  moreover have "acyclic {(?A, ?I)}"
    by (simp add: acyclic_empty_rel plainNode_def)
  ultimately show ?thesis by (rule acyclic_subset[rotated])
qed

lemma cycleInBlockScript_sort:
  "topologicalSort (nodes cycleInBlockScript) (connections cycleInBlockScript)
   = Inr [plainNode ''I'' ''flow/if'']"
  by code_simp

lemma cycleInBlockScript_compile:
  "compile 2 cycleInBlockScript newCompiler =
     Inr (\<lparr>sys_name = ''cycle in block'',
           code = join [CHR 0x0A]
             [''pub struct CycleInBlockSystem {'', ''    // System state'', ''}'', [],
              ''impl System for CycleInBlockSystem {'',
              ''    fn execute(&mut self, world: &mut World, physics: &mut PhysicsWorld, dt: f32) {'',
              ''        // Node: flow/if'', ''        if false {'',
              ''            // Node: math/add'',
              ''            let result_A = 0.0 + 0.0;'', ''            '',
              ''        }'', ''        '', ''    }'', ''}''],
           dependencies = []\<rparr>,
          \<lparr>indentLevel = 0,
           outputLines =
             [''pub struct CycleInBlockSystem {'', ''    // System state'', ''}'', [],
              ''impl System for CycleInBlockSystem {'',
              ''    fn execute(&mut self, world: &mut World, physics: &mut PhysicsWorld, dt: f32) {'',
              ''        // Node: flow/if'', ''        if false {'',
              ''            // Node: math/add'',
              ''            let result_A = 0.0 + 0.0;'', ''            '',
              ''        }'', ''        '', ''    }'', ''}''],
           nodeOutputs = [(''A'', ''result_A'')]\<rparr>)"
  by code_simp

lemma cycleInBlockScript_steps:
  "compiledInTurn (compileNode 2) [plainNode ''I'' ''flow/if'']
     (buildConnectionMap (connections cycleInBlockScript)) (mkNodeMap (nodes cycleInBlockScript))
     \<lparr>indentLevel = 2,
      outputLines =
        [''pub struct '' @ toRustName (script_name cycleInBlockScript) @ ''System {'',
         ''    // System state'', ''}'', [],
         ''impl System for '' @ toRustName (script_name cycleInBlockScript) @ ''System {'',
         ''    fn execute(&mut self, world: &mut World, physics: &mut PhysicsWorld, dt: f32) {''],
      nodeOutputs = []\<rparr>
     [([''        // Node: flow/if'', ''        if false {'',
        ''            // Node: math/add'', ''            let result_A = 0.0 + 0.0;'',
        ''            '', ''        }'', ''        ''],
       \<lparr>indentLevel = 2,
          outputLines =
            [''pub struct CycleInBlockSystem {'', ''    // System state'', ''}'', [],
             ''impl System for CycleInBlockSystem {'',
             ''    fn execute(&mut self, world: &mut World, physics: &mut PhysicsWorld, dt: f32) {'',
             ''        // Node: flow/if'', ''        if false {'',
             ''            // Node: math/add'',
             ''            let result_A = 0.0 + 0.0;'', ''            '',
             ''        }'', ''        ''],
          nodeOutputs = [(''A'', ''result_A'')]\<rparr>)]"
  by code_simp

text \<open>
  C1 as amended. For a well-formed script, \<open>topologicalSort\<close> raises no error, cycle or
  not: it returns, each once and with the source of every connection before its target,
  exactly the nodes that no dependency cycle reaches, which are the nodes that are
  neither on a cycle nor downstream of one. When the nesting of the blocks has no
  cycle, \<open>compile\<close> returns at every depth of the call stack from some depth on; and
  whenever it returns, it has written the six lines that open the system, compiled the
  sorted nodes one after the other (\<open>steps\<close> holds the lines and the state of each), and
  written the two closing lines. So the main pass skips the nodes on a cycle and
  downstream of one, and nothing reports them.

  In the example after the theorem a node on a cycle is also the \<open>then\<close> target of a
  sorted \<open>flow/if\<close> node: the main pass skips it, and its lines are in the output all the
  same, inside the \<open>if\<close> block.
\<close>

theorem sort_omits_cyclic_nodes:
  assumes wf: "wellFormed script"
  shows "\<exists>sortedNodes.
     topologicalSort (nodes script) (connections script) = Inr sortedNodes \<and>
     distinct sortedNodes \<and>
     set sortedNodes =
       {n \<in> set (nodes script).
          \<not> (\<exists>u. (u, u) \<in> (edges (connections script))\<^sup>+ \<and>
                  (u, node_id n) \<in> (edges (connections script))\<^sup>*)} \<and>
     topoOrdered (connections script) (map node_id sortedNodes) \<and>
     (acyclic (nesting script) \<longrightarrow>
        (\<exists>depth0. \<forall>depth\<ge>depth0. \<exists>sys st. compile depth script st0 = Inr (sys, st))) \<and>
     (\<forall>depth sys st. compile depth script st0 = Inr (sys, st) \<longrightarrow>
        (\<exists>steps stOut.
           compiledInTurn (compileNode depth) sortedNodes (buildConnectionMap (connections script))
             (mkNodeMap (nodes script))
             \<lparr>indentLevel = 2,
              outputLines =
                [''pub struct '' @ toRustName (script_name script) @ ''System {'',
                 ''    // System state'', ''}'', [],
                 ''impl System for '' @ toRustName (script_name script) @ ''System {'',
                 ''    fn execute(&mut self, world: &mut World, physics: &mut PhysicsWorld, dt: f32) {''],
              nodeOutputs = []\<rparr> steps \<and>
           stOut = last (\<lparr>indentLevel = 2,
              outputLines =
                [''pub struct '' @ toRustName (script_name script) @ ''System {'',
                 ''    // System state'', ''}'', [],
                 ''impl System for '' @ toRustName (script_name script) @ ''System {'',
                 ''    fn execute(&mut self, world: &mut World, physics: &mut PhysicsWorld, dt: f32) {''],
              nodeOutputs = []\<rparr> # map snd steps) \<and>
           st = \<lparr>indentLevel = indentLevel stOut - 2,
                 outputLines =
                   [''pub struct '' @ toRustName (script_name script) @ ''System {'',
                    ''    // System state'', ''}'', [],
                    ''impl System for '' @ toRustName (script_name script) @ ''System {'',
                    ''    fn execute(&mut self, world: &mut World, physics: &mut PhysicsWorld, dt: f32) {'']
                   @ concat (map fst steps)
                   @ [repeatStr ''    '' (indentLevel stOut - 1) @ ''}'',
                      repeatStr ''    '' (indentLevel stOut - 2) @ ''}''],
                 nodeOutputs = nodeOutputs stOut\<rparr> \<and>
           sys = \<lparr>sys_name = script_name script, code = join [CHR 0x0A] (outputLines st),
                  dependencies = extractDependencies (nodes script)\<rparr>))"
proof -
  from wf have dist: "distinct (map node_id (nodes script))"
    and ends: "\<forall>c\<in>set (connections script).
      source c \<in> node_id ` set (nodes script) \<and> target c \<in> node_id ` set (nodes script)"
    by (simp_all add: wellFormed_def)
  from wellFormed_sort[OF wf] obtain res degF where
    ts: "topologicalSort (nodes script) (connections script) = Inr res"
    and inv: "kahnInv (nodes script) (connections script) degF [] res"
    by blast
  note exact = kahn_exact[OF inv dist ends]
  have tot: "acyclic (nesting script) \<longrightarrow>
        (\<exists>depth0. \<forall>depth\<ge>depth0. \<exists>sys st. compile depth script st0 = Inr (sys, st))"
    using compile_returns[OF wf] by blast
  have main: "\<forall>depth sys st. compile depth script st0 = Inr (sys, st) \<longrightarrow>
        (\<exists>steps stOut.
           compiledInTurn (compileNode depth) res (buildConnectionMap (connections script))
             (mkNodeMap (nodes script))
             \<lparr>indentLevel = 2,
              outputLines =
                [''pub struct '' @ toRustName (script_name script) @ ''System {'',
                 ''    // System state'', ''}'', [],
                 ''impl System for '' @ toRustName (script_name script) @ ''System {'',
                 ''    fn execute(&mut self, world: &mut World, physics: &mut PhysicsWorld, dt: f32) {''],
              nodeOutputs = []\<rparr> steps \<and>
           stOut = last (\<lparr>indentLevel = 2,
              outputLines =
                [''pub struct '' @ toRustName (script_name script) @ ''System {'',
                 ''    // System state'', ''}'', [],
                 ''impl System for '' @ toRustName (script_name script) @ ''System {'',
                 ''    fn execute(&mut self, world: &mut World, physics: &mut PhysicsWorld, dt: f32) {''],
              nodeOutputs = []\<rparr> # map snd steps) \<and>
           st = \<lparr>indentLevel = indentLevel stOut - 2,
                 outputLines =
                   [''pub struct '' @ toRustName (script_name script) @ ''System {'',
                    ''    // System state'', ''}'', [],
                    ''impl System for '' @ toRustName (script_name script) @ ''System {'',
                    ''    fn execute(&mut self, world: &mut World, physics: &mut PhysicsWorld, dt: f32) {'']
                   @ concat (map fst steps)
                   @ [repeatStr ''    '' (indentLevel stOut - 1) @ ''}'',
                      repeatStr ''    '' (indentLevel stOut - 2) @ ''}''],
                 nodeOutputs = nodeOutputs stOut\<rparr> \<and>
           sys = \<lparr>sys_name = script_name script, code = join [CHR 0x0A] (outputLines st),
                  dependencies = extractDependencies (nodes script)\<rparr>)"
  proof (intro allI impI)
    fix depth sys st
    assume "compile depth script st0 = Inr (sys, st)"
    from this ts show "\<exists>steps stOut.
           compiledInTurn (compileNode depth) res (buildConnectionMap (connections script))
             (mkNodeMap (nodes script))
             \<lparr>indentLevel = 2,
              outputLines =
                [''pub struct '' @ toRustName (script_name script) @ ''System {'',
                 ''    // System state'', ''}'', [],
                 ''impl System for '' @ toRustName (script_name script) @ ''System {'',
                 ''    fn execute(&mut self, world: &mut World, physics: &mut PhysicsWorld, dt: f32) {''],
              nodeOutputs = []\<rparr> steps \<and>
           stOut = last (\<lparr>indentLevel = 2,
              outputLines =
                [''pub struct '' @ toRustName (script_name script) @ ''System {'',
                 ''    // System state'', ''}'', [],
                 ''impl System for '' @ toRustName (script_name script) @ ''System {'',
                 ''    fn execute(&mut self, world: &mut World, physics: &mut PhysicsWorld, dt: f32) {''],
              nodeOutputs = []\<rparr> # map snd steps) \<and>
           st = \<lparr>indentLevel = indentLevel stOut - 2,
                 outputLines =
                   [''pub struct '' @ toRustName (script_name script) @ ''System {'',
                    ''    // System state'', ''}'', [],
                    ''impl System for '' @ toRustName (script_name script) @ ''System {'',
                    ''    fn execute(&mut self, world: &mut World, physics: &mut PhysicsWorld, dt: f32) {'']
                   @ concat (map fst steps)
                   @ [repeatStr ''    '' (indentLevel stOut - 1) @ ''}'',
                      repeatStr ''    '' (indentLevel stOut - 2) @ ''}''],
                 nodeOutputs = nodeOutputs stOut\<rparr> \<and>
           sys = \<lparr>sys_name = script_name script, code = join [CHR 0x0A] (outputLines st),
                  dependencies = extractDependencies (nodes script)\<rparr>"
      by (rule compile_Inr_steps)
  qed
  from ts exact tot main show ?thesis
    by (intro exI[of _ res] conjI)
qed

theorem sort_omits_cyclic_nodes_witness:
  "wellFormed cycleInBlockScript \<and> acyclic (nesting cycleInBlockScript) \<and>
   (''A'', ''A'') \<in> (edges (connections cycleInBlockScript))\<^sup>+ \<and>
   (''A'', ''B'') \<in> (edges (connections cycleInBlockScript))\<^sup>* \<and>
   (\<exists>depth0. \<forall>depth\<ge>depth0.
      \<exists>sys st. compile depth cycleInBlockScript newCompiler = Inr (sys, st)) \<and>
   topologicalSort (nodes cycleInBlockScript) (connections cycleInBlockScript)
     = Inr [plainNode ''I'' ''flow/if''] \<and>
   {n \<in> set (nodes cycleInBlockScript).
      \<not> (\<exists>u. (u, u) \<in> (edges (connections cycleInBlockScript))\<^sup>+ \<and>
              (u, node_id n) \<in> (edges (connections cycleInBlockScript))\<^sup>*)}
     = {plainNode ''I'' ''flow/if''} \<and>
   compile 2 cycleInBlockScript newCompiler =
     Inr (\<lparr>sys_name = ''cycle in block'',
           code = join [CHR 0x0A]
             [''pub struct CycleInBlockSystem {'', ''    // System state'', ''}'', [],
              ''impl System for CycleInBlockSystem {'',
              ''    fn execute(&mut self, world: &mut World, physics: &mut PhysicsWorld, dt: f32) {'',
              ''        // Node: flow/if'', ''        if false {'',
              ''            // Node: math/add'',
              ''            let result_A = 0.0 + 0.0;'', ''            '',
              ''        }'', ''        '', ''    }'', ''}''],
           dependencies = []\<rparr>,
          \<lparr>indentLevel = 0,
           outputLines =
             [''pub struct CycleInBlockSystem {'', ''    // System state'', ''}'', [],
              ''impl System for CycleInBlockSystem {'',
              ''    fn execute(&mut self, world: &mut World, physics: &mut PhysicsWorld, dt: f32) {'',
              ''        // Node: flow/if'', ''        if false {'',
              ''            // Node: math/add'',
              ''            let result_A = 0.0 + 0.0;'', ''            '',
              ''        }'', ''        '', ''    }'', ''}''],
           nodeOutputs = [(''A'', ''result_A'')]\<rparr>) \<and>
   (\<exists>steps :: (string list \<times> compiler) list.
      map fst steps = [[''        // Node: flow/if'', ''        if false {'',
                        ''            // Node: math/add'',
                        ''            let result_A = 0.0 + 0.0;'',
                        ''            '', ''        }'', ''        '']] \<and>
      [''pub struct CycleInBlockSystem {'', ''    // System state'', ''}'', [],
       ''impl System for CycleInBlockSystem {'',
       ''    fn execute(&mut self, world: &mut World, physics: &mut PhysicsWorld, dt: f32) {'',
       ''        // Node: flow/if'', ''        if false {'',
       ''            // Node: math/add'', ''            let result_A = 0.0 + 0.0;'',
       ''            '', ''        }'', ''        '', ''    }'', ''}'']
      = [''pub struct CycleInBlockSystem {'', ''    // System state'', ''}'', [],
       ''impl System for CycleInBlockSystem {'',
       ''    fn execute(&mut self, world: &mut World, physics: &mut PhysicsWorld, dt: f32) {'']
        @ concat (map fst steps) @ [''    }'', ''}''])"
proof -
  from sort_omits_cyclic_nodes[OF cycleInBlockScript_wellFormed, of newCompiler]
  obtain sortedNodes where
    ts: "topologicalSort (nodes cycleInBlockScript) (connections cycleInBlockScript) = Inr sortedNodes"
    and exact: "set sortedNodes =
       {n \<in> set (nodes cycleInBlockScript).
          \<not> (\<exists>u. (u, u) \<in> (edges (connections cycleInBlockScript))\<^sup>+ \<and>
                  (u, node_id n) \<in> (edges (connections cycleInBlockScript))\<^sup>*)}"
    and tot: "acyclic (nesting cycleInBlockScript) \<longrightarrow>
        (\<exists>depth0. \<forall>depth\<ge>depth0. \<exists>sys st. compile depth cycleInBlockScript newCompiler = Inr (sys, st))"
    and main: "\<forall>depth sys st. compile depth cycleInBlockScript newCompiler = Inr (sys, st) \<longrightarrow>
        (\<exists>steps stOut.
           compiledInTurn (compileNode depth) sortedNodes (buildConnectionMap (connections cycleInBlockScript)) (mkNodeMap (nodes cycleInBlockScript))
             \<lparr>indentLevel = 2,
              outputLines =
                [''pub struct '' @ toRustName (script_name cycleInBlockScript) @ ''System {'',
                 ''    // System state'', ''}'', [],
                 ''impl System for '' @ toRustName (script_name cycleInBlockScript) @ ''System {'',
                 ''    fn execute(&mut self, world: &mut World, physics: &mut PhysicsWorld, dt: f32) {''],
              nodeOutputs = []\<rparr> steps \<and>
           stOut = last (\<lparr>indentLevel = 2,
              outputLines =
                [''pub struct '' @ toRustName (script_name cycleInBlockScript) @ ''System {'',
                 ''    // System state'', ''}'', [],
                 ''impl System for '' @ toRustName (script_name cycleInBlockScript) @ ''System {'',
                 ''    fn execute(&mut self, world: &mut World, physics: &mut PhysicsWorld, dt: f32) {''],
              nodeOutputs = []\<rparr>
                         # map snd steps) \<and>
           st = \<lparr>indentLevel = indentLevel stOut - 2,
                 outputLines = [''pub struct '' @ toRustName (script_name cycleInBlockScript) @ ''System {'',
                    ''    // System state'', ''}'', [],
                    ''impl System for '' @ toRustName (script_name cycleInBlockScript) @ ''System {'',
                    ''    fn execute(&mut self, world: &mut World, physics: &mut PhysicsWorld, dt: f32) {'']
                   @ concat (map fst steps)
                   @ [repeatStr ''    '' (indentLevel stOut - 1) @ ''}'',
                      repeatStr ''    '' (indentLevel stOut - 2) @ ''}''],
                 nodeOutputs = nodeOutputs stOut\<rparr> \<and>
           sys = \<lparr>sys_name = script_name cycleInBlockScript, code = join [CHR 0x0A] (outputLines st),
                  dependencies = extractDependencies (nodes cycleInBlockScript)\<rparr>)"
    by (elim exE conjE) (rule that; assumption)
  from ts cycleInBlockScript_sort have sorted: "sortedNodes = [plainNode ''I'' ''flow/if'']" by simp
  from exact[symmetric] have set: "{n \<in> set (nodes cycleInBlockScript).
      \<not> (\<exists>u. (u, u) \<in> (edges (connections cycleInBlockScript))\<^sup>+ \<and>
              (u, node_id n) \<in> (edges (connections cycleInBlockScript))\<^sup>*)} = {plainNode ''I'' ''flow/if''}"
    by (simp add: sorted)
  from mp[OF tot cycleInBlockScript_nesting]
  have total: "\<exists>depth0. \<forall>depth\<ge>depth0. \<exists>sys st. compile depth cycleInBlockScript newCompiler = Inr (sys, st)" .
  from main[rule_format, OF cycleInBlockScript_compile] obtain steps where
    st: "compiledInTurn (compileNode 2) sortedNodes (buildConnectionMap (connections cycleInBlockScript)) (mkNodeMap (nodes cycleInBlockScript))
             \<lparr>indentLevel = 2,
      outputLines =
        [''pub struct '' @ toRustName (script_name cycleInBlockScript) @ ''System {'',
         ''    // System state'', ''}'', [],
         ''impl System for '' @ toRustName (script_name cycleInBlockScript) @ ''System {'',
         ''    fn execute(&mut self, world: &mut World, physics: &mut PhysicsWorld, dt: f32) {''],
      nodeOutputs = []\<rparr> steps"
    by (elim exE conjE)
  from compiledInTurn_unique[OF st[unfolded sorted] cycleInBlockScript_steps]
  have steps: "steps = [([''        // Node: flow/if'', ''        if false {'',
        ''            // Node: math/add'', ''            let result_A = 0.0 + 0.0;'',
        ''            '', ''        }'', ''        ''],
       \<lparr>indentLevel = 2,
          outputLines =
            [''pub struct CycleInBlockSystem {'', ''    // System state'', ''}'', [],
             ''impl System for CycleInBlockSystem {'',
             ''    fn execute(&mut self, world: &mut World, physics: &mut PhysicsWorld, dt: f32) {'',
             ''        // Node: flow/if'', ''        if false {'',
             ''            // Node: math/add'',
             ''            let result_A = 0.0 + 0.0;'', ''            '',
             ''        }'', ''        ''],
          nodeOutputs = [(''A'', ''result_A'')]\<rparr>)]" .
  have conj: "map fst steps = [[''        // Node: flow/if'', ''        if false {'',
                        ''            // Node: math/add'',
                        ''            let result_A = 0.0 + 0.0;'',
                        ''            '', ''        }'', ''        '']] \<and>
      [''pub struct CycleInBlockSystem {'', ''    // System state'', ''}'', [],
       ''impl System for CycleInBlockSystem {'',
       ''    fn execute(&mut self, world: &mut World, physics: &mut PhysicsWorld, dt: f32) {'',
       ''        // Node: flow/if'', ''        if false {'',
       ''            // Node: math/add'', ''            let result_A = 0.0 + 0.0;'',
       ''            '', ''        }'', ''        '', ''    }'', ''}'']
      = [''pub struct CycleInBlockSystem {'', ''    // System state'', ''}'', [],
       ''impl System for CycleInBlockSystem {'',
       ''    fn execute(&mut self, world: &mut World, physics: &mut PhysicsWorld, dt: f32) {'']
        @ concat (map fst steps) @ [''    }'', ''}'']"
    by (simp add: steps)
  have ex: "\<exists>steps :: (string list \<times> compiler) list.
      map fst steps = [[''        // Node: flow/if'', ''        if false {'',
                        ''            // Node: math/add'',
                        ''            let result_A = 0.0 + 0.0;'',
                        ''            '', ''        }'', ''        '']] \<and>
      [''pub struct CycleInBlockSystem {'', ''    // System state'', ''}'', [],
       ''impl System for CycleInBlockSystem {'',
       ''    fn execute(&mut self, world: &mut World, physics: &mut PhysicsWorld, dt: f32) {'',
       ''        // Node: flow/if'', ''        if false {'',
       ''            // Node: math/add'', ''            let result_A = 0.0 + 0.0;'',
       ''            '', ''        }'', ''        '', ''    }'', ''}'']
      = [''pub struct CycleInBlockSystem {'', ''    // System state'', ''}'', [],
       ''impl System for CycleInBlockSystem {'',
       ''    fn execute(&mut self, world: &mut World, physics: &mut PhysicsWorld, dt: f32) {'']
        @ concat (map fst steps) @ [''    }'', ''}'']"
    by (rule exI[of _ steps], rule conj)
  from cycleInBlockScript_wellFormed cycleInBlockScript_nesting cycleInBlockScript_cycle total cycleInBlockScript_sort set cycleInBlockScript_compile ex
  show ?thesis by (intro conjI)
qed

lemma addEdges_missing_source:
  "c \<in> set conns \<Longrightarrow> map_of graph (source c) = None \<Longrightarrow>
   addEdges conns graph inDegree = Inl TypeError"
proof (induction conns arbitrary: graph inDegree)
  case Nil
  then show ?case by simp
next
  case (Cons conn conns)
  show ?case
  proof (cases "map_of graph (source conn)")
    case None
    then show ?thesis by simp
  next
    case (Some ts)
    with Cons.prems(2) have ne: "source c \<noteq> source conn" by auto
    with Cons.prems(1) have c: "c \<in> set conns" by auto
    from ne Cons.prems(2)
    have "map_of (AList.update (source conn) (ts @ [target conn]) graph) (source c) = None"
      by (simp add: update_conv')
    from Cons.IH[OF c this] Some show ?thesis by simp
  qed
qed

lemma danglingSourceScript_compile:
  "compile 1 danglingSourceScript newCompiler = Inl TypeError"
  by code_simp

text \<open>
  C3 fails on the code: a script with a connection to an id that is no node compiles
  to a system, with no error at all, when the sort never dequeues that id.
\<close>

theorem dangling_target_compiles:
  "(\<exists>c\<in>set (connections danglingTargetScript).
      target c \<notin> node_id ` set (nodes danglingTargetScript)) \<and>
   (\<exists>sys st. compile 1 danglingTargetScript newCompiler = Inr (sys, st))"
proof
  show "\<exists>c\<in>set (connections danglingTargetScript).
      target c \<notin> node_id ` set (nodes danglingTargetScript)"
    by (simp add: danglingTargetScript_def connection_def plainNode_def)
  show "\<exists>sys st. compile 1 danglingTargetScript newCompiler = Inr (sys, st)"
    unfolding danglingTargetScript_compile by simp
qed

text \<open>
  C3 as amended. When the source of a connection is not the id of a node of the script,
  \<open>compile\<close> fails with the \<open>TypeError\<close> that the topological sort raises when it
  appends to the adjacency list of that source, and returns no compiled system. The
  error carries no connection id.
\<close>

theorem dangling_source_TypeError:
  assumes "c \<in> set (connections script)"
      and "source c \<notin> node_id ` set (nodes script)"
  shows "compile depth script st0 = Inl TypeError"
proof -
  from assms(2) have "map_of (initGraph (nodes script)) (source c) = None"
    by (simp add: initGraph_def map_of_foldl_update_const)
  with assms(1) have "addEdges (connections script) (initGraph (nodes script))
                     (initInDegree (nodes script)) = Inl TypeError"
    by (rule addEdges_missing_source)
  then have "topologicalSort (nodes script) (connections script) = Inl TypeError"
    by (simp add: topologicalSort_def)
  then show ?thesis
    by (simp add: compile_def)
qed

theorem dangling_source_TypeError_witness:
  "connection ''c1'' ''X'' ''result'' ''A'' ''a'' \<in> set (connections danglingSourceScript) \<and>
   source (connection ''c1'' ''X'' ''result'' ''A'' ''a'')
     \<notin> node_id ` set (nodes danglingSourceScript) \<and>
   compile 1 danglingSourceScript newCompiler = Inl TypeError"
proof -
  have m: "connection ''c1'' ''X'' ''result'' ''A'' ''a'' \<in> set (connections danglingSourceScript)"
    by (simp add: danglingSourceScript_def)
  have s: "source (connection ''c1'' ''X'' ''result'' ''A'' ''a'')
     \<notin> node_id ` set (nodes danglingSourceScript)"
    by (simp add: danglingSourceScript_def connection_def plainNode_def)
  from m s dangling_source_TypeError[OF m s, of 1 newCompiler] show ?thesis by blast
qed

text \<open>
  C4 fails on the code at a script with one \<open>event/collision\<close> node: \<open>compile\<close> leaves
  the indent level at 1, and the line that opens the iteration over the collision pairs
  is followed by the two closing lines of the system only, so it is never closed.
\<close>

theorem collision_event_never_closed:
  "\<exists>sys st. compile 1 collisionScript newCompiler = Inr (sys, st) \<and>
     indentLevel st = 1 \<and>
     outputLines st =
       [''pub struct CollisionSystem {'', ''    // System state'', ''}'', [],
        ''impl System for CollisionSystem {'',
        ''    fn execute(&mut self, world: &mut World, physics: &mut PhysicsWorld, dt: f32) {'',
        ''        // Node: event/collision'',
        ''        for (entity_a, entity_b) in physics.get_collision_pairs() {'',
        ''            '', ''        }'', ''    }'']"
  unfolding collisionScript_compile by simp

section \<open>Math nodes\<close>

lemma map_of_foldl_addConnection:
  "map_of (foldl addConnection m conns) key =
     (case map_of m key of
        None \<Rightarrow> if filter (\<lambda>c. connectionKey c = key) conns = [] then None
                else Some (filter (\<lambda>c. connectionKey c = key) conns)
      | Some cs \<Rightarrow> Some (cs @ filter (\<lambda>c. connectionKey c = key) conns))"
proof (induction conns arbitrary: m)
  case Nil
  then show ?case by (simp split: option.splits)
next
  case (Cons conn conns)
  show ?case
    unfolding foldl_Cons Cons.IH
    by (auto simp: addConnection_def Let_def update_conv' split: option.splits)
qed

lemma connectionsAt_buildConnectionMap:
  "connectionsAt (buildConnectionMap conns) key = filter (\<lambda>c. connectionKey c = key) conns"
  by (simp add: connectionsAt_def buildConnectionMap_def map_of_foldl_addConnection)

lemma distinct_foldl_addConnection:
  "distinct (map fst m) \<Longrightarrow> distinct (map fst (foldl addConnection m conns))"
  by (induction conns arbitrary: m) (auto simp: addConnection_def Let_def distinct_update)

lemma buildConnectionMap_subset:
  "set (concat (map snd (buildConnectionMap conns))) \<subseteq> set conns"
proof
  fix c assume "c \<in> set (concat (map snd (buildConnectionMap conns)))"
  then obtain key cs where kc: "(key, cs) \<in> set (buildConnectionMap conns)" and c: "c \<in> set cs"
    by auto
  have "distinct (map fst (buildConnectionMap conns))"
    unfolding buildConnectionMap_def by (rule distinct_foldl_addConnection) simp
  with kc have "map_of (buildConnectionMap conns) key = Some cs" by simp
  then have "cs = filter (\<lambda>c. connectionKey c = key) conns"
    by (auto simp: buildConnectionMap_def map_of_foldl_addConnection split: if_splits)
  with c show "c \<in> set conns" by simp
qed

lemma getInputValue_unconnected:
  assumes "\<forall>c\<in>set conns. \<not> (target c = nodeId \<and> targetHandle c = inputName)"
  shows "getInputValue st nodeId inputName (buildConnectionMap conns) = None"
proof -
  have "find (\<lambda>conn. target conn = nodeId \<and> targetHandle conn = inputName)
          (concat (map snd (buildConnectionMap conns))) = None"
    unfolding find_None_iff using assms buildConnectionMap_subset[of conns] by blast
  then show ?thesis by (simp add: getInputValue_def)
qed

lemma orElse_simps [simp]:
  "orElse None d = d"
  "orElse (Some []) d = d"
  "s \<noteq> [] \<Longrightarrow> orElse (Some s) d = s"
  by (simp_all add: orElse_def)

text \<open>
  C7. Dispatching a \<open>math/add\<close> or \<open>math/multiply\<close> node (at an indent level that is not
  negative) appends exactly one line, the binding of \<open>result_<sanitized id>\<close> to the left
  operand, the operator of the node type and the right operand, and binds that symbol to
  the node id in the symbol table, so that an input whose connection comes from this
  node resolves to it. An operand is the resolved input \<open>a\<close> (or \<open>b\<close>), and \<open>0.0\<close> when
  the input does not resolve; this is the case when no connection leads to the input.
  With no connection to the node at all, a \<open>math/add\<close> node emits
  \<open>let result_<id> = 0.0 + 0.0;\<close>.
\<close>

theorem math_node_emits_binding:
  assumes ty: "node_type node = ''math/add'' \<or> node_type node = ''math/multiply''"
      and lvl: "0 \<le> indentLevel st"
  shows "\<exists>l r st'.
     dispatch self node (buildConnectionMap conns) nodeMap st = Inr st' \<and>
     outputLines st' = outputLines st @
       [repeatStr ''    '' (indentLevel st) @ ''let result_'' @ sanitizeId (node_id node)
        @ '' = '' @ l @ (if node_type node = ''math/add'' then '' + '' else '' * '') @ r @ '';''] \<and>
     indentLevel st' = indentLevel st \<and>
     map_of (nodeOutputs st') (node_id node) = Some (''result_'' @ sanitizeId (node_id node)) \<and>
     (\<forall>c cm nodeId inputName.
        find (\<lambda>conn. target conn = nodeId \<and> targetHandle conn = inputName)
          (concat (map snd cm)) = Some c \<and> source c = node_id node \<longrightarrow>
        getInputValue st' nodeId inputName cm = Some (''result_'' @ sanitizeId (node_id node))) \<and>
     l = orElse (getInputValue st (node_id node) ''a'' (buildConnectionMap conns)) ''0.0'' \<and>
     r = orElse (getInputValue st (node_id node) ''b'' (buildConnectionMap conns)) ''0.0'' \<and>
     ((\<forall>c\<in>set conns. \<not> (target c = node_id node \<and> targetHandle c = ''a'')) \<longrightarrow> l = ''0.0'') \<and>
     ((\<forall>c\<in>set conns. \<not> (target c = node_id node \<and> targetHandle c = ''b'')) \<longrightarrow> r = ''0.0'') \<and>
     (node_type node = ''math/add'' \<and> (\<forall>c\<in>set conns. target c \<noteq> node_id node) \<longrightarrow>
        outputLines st' = outputLines st @
          [repeatStr ''    '' (indentLevel st) @ ''let result_'' @ sanitizeId (node_id node)
           @ '' = 0.0 + 0.0;''])"
proof -
  let ?cm = "buildConnectionMap conns"
  let ?l = "orElse (getInputValue st (node_id node) ''a'' ?cm) ''0.0''"
  let ?r = "orElse (getInputValue st (node_id node) ''b'' ?cm) ''0.0''"
  let ?var = "''result_'' @ sanitizeId (node_id node)"
  let ?op = "if node_type node = ''math/add'' then ''+'' else ''*''"
  let ?line = "repeatStr ''    '' (indentLevel st) @ ''let '' @ ?var @ '' = '' @ ?l @ '' '' @ ?op @ '' '' @ ?r @ '';''"
  let ?st' = "setOutput (node_id node) ?var (st\<lparr>outputLines := outputLines st @ [?line]\<rparr>)"
  from ty have disp: "dispatch self node ?cm nodeMap st = compileMathOperation node ?cm ?op st"
    by (auto simp: dispatch_def)
  from lvl have run: "compileMathOperation node ?cm ?op st = Inr ?st'"
    by (simp add: compileMathOperation_def Let_def writeLine_def)
  have out: "outputLines ?st' = outputLines st @
       [repeatStr ''    '' (indentLevel st) @ ''let result_'' @ sanitizeId (node_id node)
        @ '' = '' @ ?l @ (if node_type node = ''math/add'' then '' + '' else '' * '') @ ?r @ '';'']"
    by (simp add: setOutput_def)
  have lev: "indentLevel ?st' = indentLevel st"
    by (simp add: setOutput_def)
  have bound: "map_of (nodeOutputs ?st') (node_id node) = Some ?var"
    by (simp add: setOutput_def update_conv')
  have resolve: "\<forall>c cm nodeId inputName.
        find (\<lambda>conn. target conn = nodeId \<and> targetHandle conn = inputName)
          (concat (map snd cm)) = Some c \<and> source c = node_id node \<longrightarrow>
        getInputValue ?st' nodeId inputName cm = Some ?var"
    using bound by (auto simp: getInputValue_def)
  have la: "(\<forall>c\<in>set conns. \<not> (target c = node_id node \<and> targetHandle c = ''a'')) \<longrightarrow> ?l = ''0.0''"
    by (auto simp: getInputValue_unconnected)
  have rb: "(\<forall>c\<in>set conns. \<not> (target c = node_id node \<and> targetHandle c = ''b'')) \<longrightarrow> ?r = ''0.0''"
    by (auto simp: getInputValue_unconnected)
  have both: "node_type node = ''math/add'' \<and> (\<forall>c\<in>set conns. target c \<noteq> node_id node) \<longrightarrow>
        outputLines ?st' = outputLines st @
          [repeatStr ''    '' (indentLevel st) @ ''let result_'' @ sanitizeId (node_id node)
           @ '' = 0.0 + 0.0;'']"
  proof
    assume h: "node_type node = ''math/add'' \<and> (\<forall>c\<in>set conns. target c \<noteq> node_id node)"
    then have "?l = ''0.0''" "?r = ''0.0''"
      by (auto simp: getInputValue_unconnected)
    with h show "outputLines ?st' = outputLines st @
          [repeatStr ''    '' (indentLevel st) @ ''let result_'' @ sanitizeId (node_id node)
           @ '' = 0.0 + 0.0;'']"
      by (simp add: setOutput_def)
  qed
  from disp run have "dispatch self node ?cm nodeMap st = Inr ?st'" by simp
  with out lev bound resolve la rb both show ?thesis
    by (intro exI[of _ ?l] exI[of _ ?r] exI[of _ ?st']) blast
qed

theorem math_node_emits_binding_witness:
  "node_type (plainNode ''n1'' ''math/add'') = ''math/add'' \<and> 0 \<le> indentLevel newCompiler \<and>
   (\<exists>st'. dispatch (compileNode 0) (plainNode ''n1'' ''math/add'') (buildConnectionMap []) []
             newCompiler = Inr st' \<and>
          outputLines st' = [''let result_n1 = 0.0 + 0.0;''] \<and>
          map_of (nodeOutputs st') ''n1'' = Some ''result_n1'')"
proof -
  let ?n = "plainNode ''n1'' ''math/add''"
  have ty: "node_type ?n = ''math/add'' \<or> node_type ?n = ''math/multiply''"
    by (simp add: plainNode_def)
  have lvl: "0 \<le> indentLevel newCompiler"
    by (simp add: newCompiler_def)
  have sid: "sanitizeId ''n1'' = ''n1''"
    by (simp add: sanitizeId_def isWordChar_def)
  from math_node_emits_binding[OF ty lvl, of "compileNode 0" "[]" "[]"]
  show ?thesis
    by (elim exE conjE) (simp add: plainNode_def newCompiler_def repeatStr_def sid)
qed

section \<open>Branch nodes\<close>

lemma andThen_InrE:
  assumes "andThen m f = Inr y"
  obtains x where "m = Inr x" and "f x = Inr y"
  using assms by (auto simp: andThen_eq_Inr)








section \<open>Nodes reached through a block handle\<close>

lemma compileTargets_visits:
  assumes app: "appending self"
  shows "compileTargets self conns cm nm st = Inr st' \<Longrightarrow> c \<in> set conns \<Longrightarrow>
         map_of nm (target c) = Some t \<Longrightarrow>
         \<exists>s1 s2. self t cm nm s1 = Inr s2 \<and> prefix (outputLines st) (outputLines s1)
                \<and> prefix (outputLines s2) (outputLines st')"
proof (induction conns arbitrary: st)
  case Nil
  then show ?case by simp
next
  case (Cons conn conns)
  note ct = compileTargets_prefix[OF app]
  show ?case
  proof (cases "map_of nm (target conn)")
    case None
    with Cons.prems have "compileTargets self conns cm nm st = Inr st'" and "c \<in> set conns"
      by auto
    from Cons.IH[OF this Cons.prems(3)] show ?thesis .
  next
    case (Some t0)
    with Cons.prems(1) obtain m where
      first: "self t0 cm nm st = Inr m" and rest: "compileTargets self conns cm nm m = Inr st'"
      by (auto simp: andThen_eq_Inr)
    from app first have p1: "prefix (outputLines st) (outputLines m)"
      by (auto simp: appending_def)
    show ?thesis
    proof (cases "c = conn")
      case True
      with Some Cons.prems(3) have "t0 = t" by simp
      with first ct[OF rest] show ?thesis by blast
    next
      case False
      with Cons.prems(2) have "c \<in> set conns" by simp
      from Cons.IH[OF rest this Cons.prems(3)] obtain s1 s2 where
        "self t cm nm s1 = Inr s2" "prefix (outputLines m) (outputLines s1)"
        "prefix (outputLines s2) (outputLines st')"
        by blast
      with p1 show ?thesis by (blast intro: prefix_order.trans)
    qed
  qed
qed

lemma compileIfStatement_visits:
  assumes app: "appending self"
      and run: "compileIfStatement self node cm nm st = Inr st'"
      and c: "c \<in> set (connectionsAt cm (node_id node @ ''_then''))
              \<or> c \<in> set (connectionsAt cm (node_id node @ ''_else''))"
      and t: "map_of nm (target c) = Some t"
  shows "\<exists>s1 s2. self t cm nm s1 = Inr s2 \<and> prefix (outputLines st) (outputLines s1)
                \<and> prefix (outputLines s2) (outputLines st')"
proof -
  note ct = compileTargets_prefix[OF app]
  note cv = compileTargets_visits[OF app]
  let ?elseConns = "connectionsAt cm (node_id node @ ''_else'')"
  from run[unfolded compileIfStatement_def Let_def] obtain h1 where
    h1: "writeLine (''if '' @ orElse (getInputValue st (node_id node) ''condition'' cm) ''false''
           @ '' {'') st = Inr h1"
    and r1: "andThen (compileTargets self (connectionsAt cm (node_id node @ ''_then'')) cm nm (indent h1))
           (\<lambda>st.
         andThen
           (if ?elseConns \<noteq> [] then
              andThen (writeLine ''} else {'' (dedent st))
                (\<lambda>st. andThen (compileTargets self ?elseConns cm nm (indent st))
                (\<lambda>st. Inr (dedent st)))
            else Inr (dedent st))
           (\<lambda>st. writeLine ''}'' st)) = Inr st'"
    by (rule andThen_InrE)
  from r1 obtain h2 where
    h2: "compileTargets self (connectionsAt cm (node_id node @ ''_then'')) cm nm (indent h1) = Inr h2"
    and r2: "andThen
           (if ?elseConns \<noteq> [] then
              andThen (writeLine ''} else {'' (dedent h2))
                (\<lambda>st. andThen (compileTargets self ?elseConns cm nm (indent st))
                (\<lambda>st. Inr (dedent st)))
            else Inr (dedent h2))
           (\<lambda>st. writeLine ''}'' st) = Inr st'"
    by (rule andThen_InrE)
  from r2 obtain h3 where
    h3: "(if ?elseConns \<noteq> [] then
              andThen (writeLine ''} else {'' (dedent h2))
                (\<lambda>st. andThen (compileTargets self ?elseConns cm nm (indent st))
                (\<lambda>st. Inr (dedent st)))
            else Inr (dedent h2)) = Inr h3"
    and h4: "writeLine ''}'' h3 = Inr st'"
    by (rule andThen_InrE)
  have p1: "prefix (outputLines st) (outputLines (indent h1))"
    using writeLine_prefix[OF h1] by simp
  have p2: "prefix (outputLines (indent h1)) (outputLines h2)"
    by (rule ct[OF h2])
  have p4: "prefix (outputLines h3) (outputLines st')"
    by (rule writeLine_prefix[OF h4])
  show ?thesis
  proof (cases "c \<in> set (connectionsAt cm (node_id node @ ''_then''))")
    case True
    from cv[OF h2 True t] obtain s1 s2 where
      s: "self t cm nm s1 = Inr s2" "prefix (outputLines (indent h1)) (outputLines s1)"
        "prefix (outputLines s2) (outputLines h2)"
      by blast
    have "prefix (outputLines h2) (outputLines h3)"
    proof (cases "?elseConns \<noteq> []")
      case False
      with h3 show ?thesis by auto
    next
      case True
      with h3 obtain e1 e2 where e1: "writeLine ''} else {'' (dedent h2) = Inr e1"
        and e2: "compileTargets self ?elseConns cm nm (indent e1) = Inr e2"
        and e3: "h3 = dedent e2"
        by (auto simp: andThen_eq_Inr)
      from writeLine_prefix[OF e1] ct[OF e2] e3 show ?thesis
        by (auto intro: prefix_order.trans)
    qed
    with s p1 p4 show ?thesis by (blast intro: prefix_order.trans)
  next
    case False
    with c have ce: "c \<in> set ?elseConns" by simp
    then have "?elseConns \<noteq> []" by auto
    with h3 obtain e1 e2 where e1: "writeLine ''} else {'' (dedent h2) = Inr e1"
      and e2: "compileTargets self ?elseConns cm nm (indent e1) = Inr e2"
      and e3: "h3 = dedent e2"
      by (auto simp: andThen_eq_Inr)
    from cv[OF e2 ce t] obtain s1 s2 where
      s: "self t cm nm s1 = Inr s2" "prefix (outputLines (indent e1)) (outputLines s1)"
        "prefix (outputLines s2) (outputLines e2)"
      by blast
    have "prefix (outputLines h2) (outputLines (indent e1))"
      using writeLine_prefix[OF e1] by simp
    moreover have "prefix (outputLines e2) (outputLines h3)"
      using e3 by simp
    ultimately show ?thesis using s p1 p2 p4 by (blast intro: prefix_order.trans)
  qed
qed

lemma compileForEach_visits:
  assumes app: "appending self"
      and run: "compileForEach self node cm nm st = Inr st'"
      and c: "c \<in> set (connectionsAt cm (node_id node @ ''_body''))"
      and t: "map_of nm (target c) = Some t"
  shows "\<exists>s1 s2. self t cm nm s1 = Inr s2 \<and> prefix (outputLines st) (outputLines s1)
                \<and> prefix (outputLines s2) (outputLines st')"
proof -
  from run obtain h1 h2 where
    h1: "writeLine (''for '' @ ''item_'' @ sanitizeId (node_id node) @ '' in ''
          @ showNull (getInputValue st (node_id node) ''array'' cm) @ ''.iter() {'') st = Inr h1"
    and h2: "compileTargets self (connectionsAt cm (node_id node @ ''_body'')) cm nm
               (setOutput (node_id node @ ''_item'') (''item_'' @ sanitizeId (node_id node)) (indent h1)) = Inr h2"
    and h3: "writeLine ''}'' (dedent h2) = Inr st'"
    by (auto simp: compileForEach_def Let_def andThen_eq_Inr)
  from compileTargets_visits[OF app h2 c t] obtain s1 s2 where
    s: "self t cm nm s1 = Inr s2"
      "prefix (outputLines (setOutput (node_id node @ ''_item'') (''item_'' @ sanitizeId (node_id node)) (indent h1))) (outputLines s1)"
      "prefix (outputLines s2) (outputLines h2)"
    by blast
  from writeLine_prefix[OF h1] s(2) have "prefix (outputLines st) (outputLines s1)"
    by (auto intro: prefix_order.trans)
  moreover from writeLine_prefix[OF h3] s(3) have "prefix (outputLines s2) (outputLines st')"
    by (auto intro: prefix_order.trans)
  ultimately show ?thesis using s(1) by blast
qed

lemma prefixE_append:
  assumes "prefix xs ys"
  obtains zs where "ys = xs @ zs"
  using assms by (auto simp: prefix_def)

text \<open>
  C2 fails on the code: in the script of a \<open>flow/if\<close> node whose \<open>then\<close> handle leads to a
  \<open>math/add\<close> node, the binding of the \<open>math/add\<close> node is emitted twice, inside the
  \<open>if\<close> block and again after it by the main pass.
\<close>

theorem nested_node_emitted_twice:
  "map target (connectionsAt (buildConnectionMap (connections nestedScript)) (''I'' @ ''_then''))
     = [''T''] \<and>
   (\<exists>sys st. compile 2 nestedScript newCompiler = Inr (sys, st) \<and>
      outputLines st =
        [''pub struct NestedSystem {'', ''    // System state'', ''}'', [],
         ''impl System for NestedSystem {'',
         ''    fn execute(&mut self, world: &mut World, physics: &mut PhysicsWorld, dt: f32) {'',
         ''        // Node: flow/if'', ''        if false {'',
         ''            // Node: math/add'', ''            let result_T = 0.0 + 0.0;'',
         ''            '', ''        }'', ''        '',
         ''        // Node: math/add'', ''        let result_T = 0.0 + 0.0;'', ''        '',
         ''    }'', ''}''] \<and>
      count_list (map (dropWhile (\<lambda>ch. ch = CHR '' '')) (outputLines st))
        ''let result_T = 0.0 + 0.0;'' = 2)"
proof
  show "map target (connectionsAt (buildConnectionMap (connections nestedScript)) (''I'' @ ''_then''))
     = [''T'']"
    by (simp add: connectionsAt_buildConnectionMap nestedScript_def connection_def
          connectionKey_def)
  show "\<exists>sys st. compile 2 nestedScript newCompiler = Inr (sys, st) \<and>
      outputLines st =
        [''pub struct NestedSystem {'', ''    // System state'', ''}'', [],
         ''impl System for NestedSystem {'',
         ''    fn execute(&mut self, world: &mut World, physics: &mut PhysicsWorld, dt: f32) {'',
         ''        // Node: flow/if'', ''        if false {'',
         ''            // Node: math/add'', ''            let result_T = 0.0 + 0.0;'',
         ''            '', ''        }'', ''        '',
         ''        // Node: math/add'', ''        let result_T = 0.0 + 0.0;'', ''        '',
         ''    }'', ''}''] \<and>
      count_list (map (dropWhile (\<lambda>ch. ch = CHR '' '')) (outputLines st))
        ''let result_T = 0.0 + 0.0;'' = 2"
    unfolding nestedScript_compile by simp
qed

text \<open>
  A node reached through a block handle is compiled inside the block and once more by
  the main pass, when \<open>compile\<close> returns.
\<close>

lemma nested_target_twice_when_returned:
  assumes wf: "wellFormed script"
      and ac: "acyclic (edges (connections script))"
      and run: "compile depth script st0 = Inr (sys, st)"
      and c: "c \<in> set (connections script)"
      and i: "i \<in> set (nodes script)" "node_id i = source c"
      and t: "t \<in> set (nodes script)" "node_id t = target c"
      and kind: "(node_type i = ''flow/if'' \<and> (sourceHandle c = ''then'' \<or> sourceHandle c = ''else''))
                 \<or> (node_type i = ''flow/foreach'' \<and> sourceHandle c = ''body'')"
  shows "\<exists>d pre nested mid main post s1 s2 s3 s4.
     depth = Suc d \<and>
     compileNode d t (buildConnectionMap (connections script)) (mkNodeMap (nodes script)) s1
       = Inr s2 \<and>
     outputLines s1 = pre \<and> outputLines s2 = pre @ nested \<and> nested \<noteq> [] \<and>
     compileNode depth t (buildConnectionMap (connections script)) (mkNodeMap (nodes script)) s3
       = Inr s4 \<and>
     outputLines s3 = pre @ nested @ mid \<and> outputLines s4 = pre @ nested @ mid @ main \<and>
     main \<noteq> [] \<and>
     outputLines st = pre @ nested @ mid @ main @ post"
proof -
  let ?cm = "buildConnectionMap (connections script)"
  let ?nm = "mkNodeMap (nodes script)"
  from wf have dist: "distinct (map node_id (nodes script))"
    and ends: "\<forall>c\<in>set (connections script).
      source c \<in> node_id ` set (nodes script) \<and> target c \<in> node_id ` set (nodes script)"
    by (simp_all add: wellFormed_def)
  from dist have inj: "inj_on node_id (set (nodes script))"
    by (simp add: distinct_map)
  from compile_Inr_D[OF run] obtain sortedNodes stIn stOut where
    ts: "topologicalSort (nodes script) (connections script) = Inr sortedNodes"
    and body: "compileNodes depth sortedNodes ?cm ?nm stIn = Inr stOut"
    and out: "outputLines st = outputLines stOut
        @ [repeatStr ''    '' (indentLevel stOut - 1) @ ''}'',
           repeatStr ''    '' (indentLevel stOut - 2) @ ''}'']"
    by blast
  from wellFormed_sort[OF wf] ts obtain degF where
    inv: "kahnInv (nodes script) (connections script) degF [] sortedNodes"
    by auto
  from kahn_complete[OF inv ends ac] ends c
  have "target c \<in> set (map node_id sortedNodes)" by auto
  moreover from inv have "topoOrdered (connections script) (map node_id sortedNodes)"
    and sub: "set sortedNodes \<subseteq> set (nodes script)"
    by (simp_all add: kahnInv_def)
  ultimately obtain i1 j1 k1 where
    "map node_id sortedNodes = i1 @ source c # j1 @ target c # k1"
    using topoOrdered_split[OF _ c] by blast
  from map_eq_split2[OF this] obtain xs a ys b zs where
    split: "sortedNodes = xs @ a # ys @ b # zs" and a: "node_id a = source c"
    and b: "node_id b = target c"
    by blast
  from split sub have am: "a \<in> set (nodes script)" and bm: "b \<in> set (nodes script)" by auto
  have "node_id a = node_id i" using a i(2) by simp
  from inj_onD[OF inj this am i(1)] have ai: "a = i" .
  have "node_id b = node_id t" using b t(2) by simp
  from inj_onD[OF inj this bm t(1)] have bt: "b = t" .
  from body have "compileNodes depth (xs @ i # ys @ t # zs) ?cm ?nm stIn = Inr stOut"
    by (simp only: split ai bt)
  from compileNodes_split[OF this] obtain stI stI' where
    rI: "compileNode depth i ?cm ?nm stI = Inr stI'"
    and rest: "compileNodes depth (ys @ t # zs) ?cm ?nm stI' = Inr stOut"
    by blast
  from compileNodes_split[OF rest] obtain s3 s4 where
    mid: "compileNodes depth ys ?cm ?nm stI' = Inr s3"
    and rT: "compileNode depth t ?cm ?nm s3 = Inr s4"
    and tail: "compileNodes depth zs ?cm ?nm s4 = Inr stOut"
    by blast
  from rI obtain d where d: "depth = Suc d"
    by (cases depth) simp_all
  from rI[unfolded d] obtain h1 h2 where
    h1: "writeLine (''// Node: '' @ orElse (label (node_data i)) (node_type i)) stI = Inr h1"
    and h2: "dispatch (compileNode d) i ?cm ?nm h1 = Inr h2"
    and h3: "writeLine [] h2 = Inr stI'"
    by (auto simp: andThen_eq_Inr)
  have key: "connectionKey c = node_id i @ ''_'' @ sourceHandle c"
    by (simp add: connectionKey_def i(2))
  have tmap: "map_of ?nm (target c) = Some t"
    using map_of_mkNodeMap[OF dist t(1)] t(2) by simp
  note app = compileNode_appending[of d]
  have "\<exists>s1 s2. compileNode d t ?cm ?nm s1 = Inr s2 \<and> prefix (outputLines h1) (outputLines s1)
                \<and> prefix (outputLines s2) (outputLines h2)"
    using kind
  proof (elim disjE conjE)
    assume ty: "node_type i = ''flow/if''" and h: "sourceHandle c = ''then''"
    from h2 ty have r: "compileIfStatement (compileNode d) i ?cm ?nm h1 = Inr h2"
      by (simp add: dispatch_def)
    have "c \<in> set (connectionsAt ?cm (node_id i @ ''_then''))"
      using c key h by (simp add: connectionsAt_buildConnectionMap)
    then show ?thesis
      using compileIfStatement_visits[OF app r _ tmap] by blast
  next
    assume ty: "node_type i = ''flow/if''" and h: "sourceHandle c = ''else''"
    from h2 ty have r: "compileIfStatement (compileNode d) i ?cm ?nm h1 = Inr h2"
      by (simp add: dispatch_def)
    have "c \<in> set (connectionsAt ?cm (node_id i @ ''_else''))"
      using c key h by (simp add: connectionsAt_buildConnectionMap)
    then show ?thesis
      using compileIfStatement_visits[OF app r _ tmap] by blast
  next
    assume ty: "node_type i = ''flow/foreach''" and h: "sourceHandle c = ''body''"
    from h2 ty have r: "compileForEach (compileNode d) i ?cm ?nm h1 = Inr h2"
      by (simp add: dispatch_def)
    have "c \<in> set (connectionsAt ?cm (node_id i @ ''_body''))"
      using c key h by (simp add: connectionsAt_buildConnectionMap)
    then show ?thesis
      using compileForEach_visits[OF app r _ tmap] by blast
  qed
  then obtain s1 s2 where
    rN: "compileNode d t ?cm ?nm s1 = Inr s2"
    and q1: "prefix (outputLines h1) (outputLines s1)"
    and q2: "prefix (outputLines s2) (outputLines h2)"
    by blast
  from compileNode_prefix[OF rN] obtain nested where
    e1: "outputLines s2 = outputLines s1 @ nested" by (rule prefixE_append)
  from q2 writeLine_prefix[OF h3] compileNodes_prefix[OF mid]
  have "prefix (outputLines s2) (outputLines s3)"
    by (blast intro: prefix_order.trans)
  then obtain midl where e2: "outputLines s3 = outputLines s2 @ midl" by (rule prefixE_append)
  from compileNode_prefix[OF rT] obtain main where
    e3: "outputLines s4 = outputLines s3 @ main" by (rule prefixE_append)
  from compileNodes_prefix[OF tail] obtain rest where
    e4: "outputLines stOut = outputLines s4 @ rest" by (rule prefixE_append)
  from compileNode_emits_header[OF rN] e1 have n1: "nested \<noteq> []" by auto
  from compileNode_emits_header[OF rT] e3 have n2: "main \<noteq> []" by auto
  let ?post = "rest @ [repeatStr ''    '' (indentLevel stOut - 1) @ ''}'',
           repeatStr ''    '' (indentLevel stOut - 2) @ ''}'']"
  have f3: "outputLines s3 = outputLines s1 @ nested @ midl"
    using e1 e2 by simp
  have f4: "outputLines s4 = outputLines s1 @ nested @ midl @ main"
    using f3 e3 by simp
  have f5: "outputLines st = outputLines s1 @ nested @ midl @ main @ ?post"
    using out e4 f4 by simp
  from d rN e1 n1 rT f3 f4 n2 f5 show ?thesis
    by blast
qed

lemma nestedScript_wellFormed: "wellFormed nestedScript"
  by (simp add: wellFormed_def nestedScript_def plainNode_def connection_def)

lemma nestedScript_acyclic: "acyclic (edges (connections nestedScript))"
  by (simp add: edges_def nestedScript_def connection_def acyclic_empty_rel)

text \<open>
  C2 as amended. The topological sort and the main pass take all nodes and all
  connections of the script. In a well-formed script whose connections form no cycle,
  a node \<open>t\<close> that a connection reaches from the \<open>then\<close> or \<open>else\<close> handle of a \<open>flow/if\<close>
  node, or from the \<open>body\<close> handle of a \<open>flow/foreach\<close> node, is compiled twice whenever
  \<open>compile\<close> returns: recursively inside the enclosing block (one level deeper in the
  call stack), and later once more by the main pass. Both times its lines, which are
  not empty, go to the output: the output is \<open>pre @ nested @ mid @ main @ post\<close>. And
  \<open>compile\<close> does return, at every depth of the call stack from some depth on, when the
  nesting of the blocks has no cycle.
\<close>

theorem nested_target_compiled_twice:
  assumes wf: "wellFormed script"
      and ac: "acyclic (edges (connections script))"
      and c: "c \<in> set (connections script)"
      and i: "i \<in> set (nodes script)" "node_id i = source c"
      and t: "t \<in> set (nodes script)" "node_id t = target c"
      and kind: "(node_type i = ''flow/if'' \<and> (sourceHandle c = ''then'' \<or> sourceHandle c = ''else''))
                 \<or> (node_type i = ''flow/foreach'' \<and> sourceHandle c = ''body'')"
  shows "(acyclic (nesting script) \<longrightarrow>
           (\<exists>depth0. \<forall>depth\<ge>depth0. \<exists>sys st. compile depth script st0 = Inr (sys, st))) \<and>
         (\<forall>depth sys st. compile depth script st0 = Inr (sys, st) \<longrightarrow>
           (\<exists>d pre nested mid main post s1 s2 s3 s4.
     depth = Suc d \<and>
     compileNode d t (buildConnectionMap (connections script)) (mkNodeMap (nodes script)) s1
       = Inr s2 \<and>
     outputLines s1 = pre \<and> outputLines s2 = pre @ nested \<and> nested \<noteq> [] \<and>
     compileNode depth t (buildConnectionMap (connections script)) (mkNodeMap (nodes script)) s3
       = Inr s4 \<and>
     outputLines s3 = pre @ nested @ mid \<and> outputLines s4 = pre @ nested @ mid @ main \<and>
     main \<noteq> [] \<and>
     outputLines st = pre @ nested @ mid @ main @ post))"
proof (intro conjI impI allI)
  assume "acyclic (nesting script)"
  with wf show "\<exists>depth0. \<forall>depth\<ge>depth0. \<exists>sys st. compile depth script st0 = Inr (sys, st)"
    by (rule compile_returns)
next
  fix depth sys st
  assume run: "compile depth script st0 = Inr (sys, st)"
  show "\<exists>d pre nested mid main post s1 s2 s3 s4.
     depth = Suc d \<and>
     compileNode d t (buildConnectionMap (connections script)) (mkNodeMap (nodes script)) s1
       = Inr s2 \<and>
     outputLines s1 = pre \<and> outputLines s2 = pre @ nested \<and> nested \<noteq> [] \<and>
     compileNode depth t (buildConnectionMap (connections script)) (mkNodeMap (nodes script)) s3
       = Inr s4 \<and>
     outputLines s3 = pre @ nested @ mid \<and> outputLines s4 = pre @ nested @ mid @ main \<and>
     main \<noteq> [] \<and>
     outputLines st = pre @ nested @ mid @ main @ post"
    by (rule nested_target_twice_when_returned[OF wf ac run c i t kind])
qed

theorem nested_target_compiled_twice_witness:
  "wellFormed nestedScript \<and> acyclic (edges (connections nestedScript)) \<and>
   acyclic (nesting nestedScript) \<and>
   (\<exists>depth0. \<forall>depth\<ge>depth0. \<exists>sys st. compile depth nestedScript newCompiler = Inr (sys, st)) \<and>
   connection ''c1'' ''I'' ''then'' ''T'' ''exec'' \<in> set (connections nestedScript) \<and>
   plainNode ''I'' ''flow/if'' \<in> set (nodes nestedScript) \<and>
   plainNode ''T'' ''math/add'' \<in> set (nodes nestedScript) \<and>
   (\<exists>sys st. compile 2 nestedScript newCompiler = Inr (sys, st) \<and>
     (\<exists>d pre nested mid main post s1 s2 s3 s4.
        (2::nat) = Suc d \<and>
        compileNode d (plainNode ''T'' ''math/add'') (buildConnectionMap (connections nestedScript))
          (mkNodeMap (nodes nestedScript)) s1 = Inr s2 \<and>
        outputLines s1 = pre \<and> outputLines s2 = pre @ nested \<and> nested \<noteq> [] \<and>
        compileNode 2 (plainNode ''T'' ''math/add'') (buildConnectionMap (connections nestedScript))
          (mkNodeMap (nodes nestedScript)) s3 = Inr s4 \<and>
        outputLines s3 = pre @ nested @ mid \<and> outputLines s4 = pre @ nested @ mid @ main \<and>
        main \<noteq> [] \<and>
        outputLines st = pre @ nested @ mid @ main @ post))"
proof -
  let ?c = "connection ''c1'' ''I'' ''then'' ''T'' ''exec''"
  let ?i = "plainNode ''I'' ''flow/if''"
  let ?t = "plainNode ''T'' ''math/add''"
  have c: "?c \<in> set (connections nestedScript)"
    by (simp add: nestedScript_def)
  have i: "?i \<in> set (nodes nestedScript)" "node_id ?i = source ?c"
    by (simp_all add: nestedScript_def plainNode_def connection_def)
  have t: "?t \<in> set (nodes nestedScript)" "node_id ?t = target ?c"
    by (simp_all add: nestedScript_def plainNode_def connection_def)
  have kind: "(node_type ?i = ''flow/if'' \<and> (sourceHandle ?c = ''then'' \<or> sourceHandle ?c = ''else''))
                 \<or> (node_type ?i = ''flow/foreach'' \<and> sourceHandle ?c = ''body'')"
    by (simp add: plainNode_def connection_def)
  note both = nested_target_compiled_twice[OF nestedScript_wellFormed nestedScript_acyclic
      c i t kind, of newCompiler]
  from both nestedScript_nesting
  have total: "\<exists>depth0. \<forall>depth\<ge>depth0. \<exists>sys st. compile depth nestedScript newCompiler = Inr (sys, st)"
    by (elim conjE) (erule (1) mp)
  note inst = both[THEN conjunct2, rule_format, OF nestedScript_compile]
  from nestedScript_wellFormed nestedScript_acyclic nestedScript_nesting total c i(1) t(1)
    nestedScript_compile inst
  show ?thesis by blast
qed

end
